theory Spec2Isabelle
  imports Main "HOL-Library.Multiset"
begin

section \<open>Data model\<close>

text \<open>
  The eleven members of \<^verbatim>\<open>ServiceDependencyCondition\<close>, in declaration order.
\<close>

datatype cond = CONFIGURED | CREATED | EXITED | HEALTHY | INITIALIZED | PAUSED
  | REMOVING | RUNNING | STOPPED | STOPPING | UNHEALTHY

text \<open>
  A compose document is what \<^verbatim>\<open>yaml.safe_load\<close> returns: nested dicts and lists over
  scalars. Dicts keep their insertion order, so a dict is an association list; a
  well-formed dict has pairwise distinct keys (\<open>wf_dict\<close> below). The engine stores two
  kinds of sets in a service: \<^verbatim>\<open>_deps\<close>, a set of \<^verbatim>\<open>ServiceDependency\<close> objects
  (a name and a condition), and \<^verbatim>\<open>_aliases\<close>, a set of strings. A set is a list without
  duplicates, in insertion order. \<open>PDep\<close> is one \<^verbatim>\<open>ServiceDependency\<close> object, met as a value
  only when a set of them is turned into a list. YAML floats and timestamps are not part
  of the model.
\<close>

datatype pyval =
    PNone
  | PBool bool
  | PInt int
  | PStr string
  | PList "pyval list"
  | PDict "(string \<times> pyval) list"
  | PDeps "(string \<times> cond) list"
  | PStrs "string list"
  | PDep string cond

type_synonym pydict = "(string \<times> pyval) list"

datatype pytype = TNone | TBool | TInt | TStr | TList | TDict | TSet | TDep

text \<open>
  The exceptions of the modelled functions. \<open>PyTypeError\<close> stands for the
  \<^verbatim>\<open>TypeError\<close> or \<^verbatim>\<open>AttributeError\<close> Python raises when an operation is applied to
  a value whose type does not support it.
\<close>

datatype error =
    KeyError string
  | ValueError string
  | RuntimeError string
  | InvalidCondition pyval
  | PyTypeError
  | AttributeError
  | OutOfModel
  | UnboundLocalError

fun type_of :: "pyval \<Rightarrow> pytype" where
  "type_of PNone = TNone"
| "type_of (PBool _) = TBool"
| "type_of (PInt _) = TInt"
| "type_of (PStr _) = TStr"
| "type_of (PList _) = TList"
| "type_of (PDict _) = TDict"
| "type_of (PDeps _) = TSet"
| "type_of (PStrs _) = TSet"
| "type_of (PDep _ _) = TDep"

text \<open>\<^verbatim>\<open>isinstance(v, t)\<close>: \<^verbatim>\<open>bool\<close> is a subclass of \<^verbatim>\<open>int\<close>.\<close>

definition isinstance :: "pyval \<Rightarrow> pytype \<Rightarrow> bool" where
  "isinstance v t \<longleftrightarrow> type_of v = t \<or> (type_of v = TBool \<and> t = TInt)"

fun type_repr :: "pytype \<Rightarrow> string" where
  "type_repr TNone = ''<class 'NoneType'>''"
| "type_repr TBool = ''<class 'bool'>''"
| "type_repr TInt = ''<class 'int'>''"
| "type_repr TStr = ''<class 'str'>''"
| "type_repr TList = ''<class 'list'>''"
| "type_repr TDict = ''<class 'dict'>''"
| "type_repr TSet = ''<class 'set'>''"
| "type_repr TDep = ''<class 'podman_compose.ServiceDependency'>''"

text \<open>
  \<^verbatim>\<open>is_list\<close>: not a string, not a dict, and iterable.
\<close>

fun is_list :: "pyval \<Rightarrow> bool" where
  "is_list (PList _) = True"
| "is_list (PDeps _) = True"
| "is_list (PStrs _) = True"
| "is_list _ = False"

text \<open>
  \<^verbatim>\<open>clone\<close> makes a shallow copy of a list or dict. The model passes values, not
  references, so the copy is the value itself.
\<close>

definition clone :: "pyval \<Rightarrow> pyval" where
  "clone v = v"

definition keys :: "pydict \<Rightarrow> string list" where
  "keys d = map fst d"

fun wf_val :: "pyval \<Rightarrow> bool" where
  "wf_val (PList xs) = (\<forall>x \<in> set xs. wf_val x)"
| "wf_val (PDict d) = (distinct (map fst d) \<and> (\<forall>kv \<in> set d. wf_val (snd kv)))"
| "wf_val (PDeps es) = distinct es"
| "wf_val (PStrs ss) = distinct ss"
| "wf_val _ = True"

definition wf_dict :: "pydict \<Rightarrow> bool" where
  "wf_dict d = wf_val (PDict d)"

section \<open>Document merge engine\<close>

subsection \<open>Mount targets of volume entries\<close>

text \<open>
  \<^verbatim>\<open>":" in v\<close> for an entry \<open>v\<close> of a \<^verbatim>\<open>volumes\<close> list: substring test on a string,
  key test on a dict, element test on a list or set, \<^verbatim>\<open>TypeError\<close> on other scalars.
\<close>

fun has_colon :: "pyval \<Rightarrow> error + bool" where
  "has_colon (PStr s) = Inr (CHR '':'' \<in> set s)"
| "has_colon (PDict d) = Inr ('':'' \<in> set (map fst d))"
| "has_colon (PList xs) = Inr (PStr '':'' \<in> set xs)"
| "has_colon (PStrs ss) = Inr ('':'' \<in> set ss)"
| "has_colon (PDeps es) = Inr False"
| "has_colon _ = Inl PyTypeError"

text \<open>
  \<^verbatim>\<open>s.split(":", 2)[1]\<close> for a string that contains a colon: the text between the first
  colon and the second one (or the end of the string).
\<close>

definition split1 :: "string \<Rightarrow> string" where
  "split1 s = takeWhile (\<lambda>c. c \<noteq> CHR '':'') (tl (dropWhile (\<lambda>c. c \<noteq> CHR '':'') s))"

text \<open>\<^verbatim>\<open>v.split(":", 2)[1]\<close>, reached only when \<^verbatim>\<open>":" in v\<close> holds.\<close>

fun mount_target :: "pyval \<Rightarrow> error + string" where
  "mount_target (PStr s) = Inr (split1 s)"
| "mount_target _ = Inl PyTypeError"

text \<open>\<^verbatim>\<open>{v.split(":", 2)[1] for v in value2 if ":" in v}\<close>\<close>

fun mount_targets :: "pyval list \<Rightarrow> error + string list" where
  "mount_targets [] = Inr []"
| "mount_targets (v # vs) =
     (case has_colon v of
        Inl e \<Rightarrow> Inl e
      | Inr False \<Rightarrow> mount_targets vs
      | Inr True \<Rightarrow>
          (case mount_target v of
             Inl e \<Rightarrow> Inl e
           | Inr t \<Rightarrow> (case mount_targets vs of Inl e \<Rightarrow> Inl e | Inr ts \<Rightarrow> Inr (t # ts))))"

text \<open>
  The entries of \<open>value\<close> that survive the deletion of the indices in \<^verbatim>\<open>del_ls\<close>:
  those that have no colon or whose mount target is not in \<open>pts\<close>.
\<close>

fun drop_targets :: "string list \<Rightarrow> pyval list \<Rightarrow> error + pyval list" where
  "drop_targets pts [] = Inr []"
| "drop_targets pts (v # vs) =
     (case has_colon v of
        Inl e \<Rightarrow> Inl e
      | Inr False \<Rightarrow> (case drop_targets pts vs of Inl e \<Rightarrow> Inl e | Inr r \<Rightarrow> Inr (v # r))
      | Inr True \<Rightarrow>
          (case mount_target v of
             Inl e \<Rightarrow> Inl e
           | Inr t \<Rightarrow>
               (case drop_targets pts vs of
                  Inl e \<Rightarrow> Inl e
                | Inr r \<Rightarrow> Inr (if t \<in> set pts then r else v # r))))"

text \<open>The \<^verbatim>\<open>volumes\<close> branch: drop the shadowed entries, then \<^verbatim>\<open>value.extend(value2)\<close>.\<close>

definition merge_volumes :: "pyval list \<Rightarrow> pyval list \<Rightarrow> error + pyval list" where
  "merge_volumes value value2 =
     (case mount_targets value2 of
        Inl e \<Rightarrow> Inl e
      | Inr pts \<Rightarrow>
          (case drop_targets pts value of
             Inl e \<Rightarrow> Inl e
           | Inr kept \<Rightarrow> Inr (kept @ value2)))"

subsection \<open>\<^verbatim>\<open>rec_merge_one\<close>\<close>

text \<open>
  The first loop of \<^verbatim>\<open>rec_merge_one\<close>: every key of \<open>source\<close> that \<open>target\<close> lacks is
  added at the end of \<open>target\<close> and recorded in \<open>done\<close>.
\<close>

fun add_missing :: "pydict \<Rightarrow> string list \<Rightarrow> pydict \<Rightarrow> pydict \<times> string list" where
  "add_missing target done [] = (target, done)"
| "add_missing target done ((key, val) # source) =
     (if key \<in> set (keys target) then add_missing target done source
      else add_missing (target @ [(key, clone val)]) (done @ [key]) source)"

definition merge_error :: "string \<Rightarrow> pyval \<Rightarrow> pyval \<Rightarrow> error" where
  "merge_error key val value2 =
     ValueError (''can't merge value of ['' @ key @ ''] of type '' @ type_repr (type_of val)
       @ '' and '' @ type_repr (type_of value2))"

text \<open>
  The branch for \<^verbatim>\<open>is_list(value2)\<close>. The \<^verbatim>\<open>isinstance\<close> test before it has made
  sure both values have the same type; \<^verbatim>\<open>extend\<close> exists on lists only.
\<close>

fun extend_value :: "string \<Rightarrow> pyval \<Rightarrow> pyval \<Rightarrow> error + pyval" where
  "extend_value key (PList xs) (PList ys) =
     (if key = ''volumes'' then
        (case merge_volumes xs ys of Inl e \<Rightarrow> Inl e | Inr zs \<Rightarrow> Inr (PList zs))
      else Inr (PList (xs @ ys)))"
| "extend_value key _ _ = Inl PyTypeError"

text \<open>
  The second loop runs over the items of \<open>target\<close>; \<open>merge_loop\<close> is that loop and
  \<open>merge_item\<close> its body for one key present on both sides. An exception ends the loop.
\<close>

function rec_merge_one :: "pydict \<Rightarrow> pydict \<Rightarrow> error + pydict"
  and merge_loop :: "string list \<Rightarrow> pydict \<Rightarrow> pydict \<Rightarrow> error + pydict"
  and merge_item :: "string \<Rightarrow> pyval \<Rightarrow> pyval \<Rightarrow> error + pyval"
where
  "rec_merge_one target source =
     (case add_missing target [] source of (target1, done) \<Rightarrow> merge_loop done source target1)"
| "merge_loop done source [] = Inr []"
| "merge_loop done source ((key, val) # rest) =
     (if key \<in> set done then
        (case merge_loop done source rest of Inl e \<Rightarrow> Inl e | Inr r \<Rightarrow> Inr ((key, val) # r))
      else
        (case map_of source key of
           None \<Rightarrow>
             (case merge_loop done source rest of Inl e \<Rightarrow> Inl e | Inr r \<Rightarrow> Inr ((key, val) # r))
         | Some value2 \<Rightarrow>
             (case merge_item key val value2 of
                Inl e \<Rightarrow> Inl e
              | Inr v \<Rightarrow>
                  (case merge_loop done source rest of
                     Inl e \<Rightarrow> Inl e
                   | Inr r \<Rightarrow> Inr ((key, v) # r)))))"
| "merge_item key val value2 =
     (if key = ''command'' \<or> key = ''entrypoint'' then Inr (clone value2)
      else if \<not> isinstance value2 (type_of val) then Inl (merge_error key val value2)
      else if is_list value2 then extend_value key val value2
      else
        (case val of
           PDict d \<Rightarrow>
             (case value2 of
                PDict d2 \<Rightarrow>
                  (case rec_merge_one d d2 of Inl e \<Rightarrow> Inl e | Inr d' \<Rightarrow> Inr (PDict d'))
              | _ \<Rightarrow> Inr value2)
         | _ \<Rightarrow> Inr value2))"
  by pat_completeness auto

lemma add_missing_shape:
  "add_missing t dn s = (t1, dn1) \<Longrightarrow>
   \<exists>new. t1 = t @ new \<and> dn1 = dn @ map fst new \<and> length new \<le> length s"
proof (induction t dn s arbitrary: t1 dn1 rule: add_missing.induct)
  case (1 target dn)
  then show ?case by simp
next
  case (2 target dn key val source)
  then show ?case by (fastforce split: if_splits)
qed

lemma size_list_filter_le: "size_list f (filter P xs) \<le> size_list f xs"
  by (induction xs) auto

lemma filter_done_add_missing:
  assumes "add_missing t [] s = (t1, dn1)"
  shows "filter (\<lambda>kv. fst kv \<notin> set dn1) t1 = filter (\<lambda>kv. fst kv \<notin> set dn1) t"
    and "length t1 \<le> length t + length s"
proof -
  from add_missing_shape[OF assms] obtain new where
    n: "t1 = t @ new" "dn1 = map fst new" "length new \<le> length s" by auto
  have "filter (\<lambda>kv. fst kv \<notin> set dn1) new = []"
    using n(2) by (auto simp: filter_empty_conv)
  then show "filter (\<lambda>kv. fst kv \<notin> set dn1) t1 = filter (\<lambda>kv. fst kv \<notin> set dn1) t"
    using n(1) by simp
  show "length t1 \<le> length t + length s" using n by simp
qed

text \<open>
  The recursion ends: a nested call works on a value stored in \<open>target\<close> before the
  first loop ran, since the keys the first loop added are skipped.
\<close>

termination rec_merge_one
proof (relation "(\<lambda>x. case x of
        Inl (t, s) \<Rightarrow> size (PDict t)
      | Inr (Inl (dn, s, es)) \<Rightarrow> size (PDict (filter (\<lambda>kv. fst kv \<notin> set dn) es))
      | Inr (Inr (k, v, v2)) \<Rightarrow> size v + 1) <*mlex*> measure (\<lambda>x. case x of
        Inl (t, s) \<Rightarrow> length t + length s + 1
      | Inr (Inl (dn, s, es)) \<Rightarrow> length es
      | Inr (Inr (k, v, v2)) \<Rightarrow> 0)", goal_cases)
  case 1
  then show ?case by (simp add: wf_mlex)
next
  case (2 target source x y)
  from filter_done_add_missing[OF this[symmetric]] show ?case
    using size_list_filter_le[of "size_prod (\<lambda>x. 0) size" "\<lambda>kv. fst kv \<notin> set y" target]
    by (auto simp: mlex_iff)
next
  case (3 dn source key val rest)
  then show ?case by (auto simp: mlex_iff)
next
  case (4 dn source key val rest)
  then show ?case by (auto simp: mlex_iff)
next
  case (5 dn source key val rest x2)
  then show ?case by (auto simp: mlex_iff)
next
  case (6 dn source key val rest x2 b)
  then show ?case by (auto simp: mlex_iff)
next
  case (7 key val value2 x y)
  then show ?case by (auto simp: mlex_iff)
qed

text \<open>
  \<^verbatim>\<open>rec_merge(target, *sources)\<close>: merge the sources one after the other into the
  same target. With no source at all the variable \<^verbatim>\<open>ret\<close> is never bound.
\<close>

fun rec_merge_loop :: "pydict \<Rightarrow> pydict list \<Rightarrow> error + pydict" where
  "rec_merge_loop ret [] = Inr ret"
| "rec_merge_loop target (source # sources) =
     (case rec_merge_one target source of
        Inl e \<Rightarrow> Inl e
      | Inr ret \<Rightarrow> rec_merge_loop ret sources)"

definition rec_merge :: "pydict \<Rightarrow> pydict list \<Rightarrow> error + pydict" where
  "rec_merge target sources =
     (if sources = [] then Inl UnboundLocalError else rec_merge_loop target sources)"

text \<open>
  The \<^verbatim>\<open>merge_all\<close> of the specification: fold \<^verbatim>\<open>rec_merge_one\<close> over the documents from
  left to right, starting from an empty target (\<^verbatim>\<open>rec_merge({}, d1, ..., dn)\<close>).
\<close>

definition merge_all :: "pydict list \<Rightarrow> error + pydict" where
  "merge_all sources = rec_merge [] sources"

text \<open>
  A value is free of the special-case keys when no dict inside it, at any depth, has
  one of the keys \<^verbatim>\<open>command\<close>, \<^verbatim>\<open>entrypoint\<close>, \<^verbatim>\<open>volumes\<close>.
\<close>

fun special_free :: "pyval \<Rightarrow> bool" where
  "special_free (PList xs) = (\<forall>x \<in> set xs. special_free x)"
| "special_free (PDict d) =
     (\<forall>kv \<in> set d. fst kv \<notin> {''command'', ''entrypoint'', ''volumes''} \<and> special_free (snd kv))"
| "special_free _ = True"

text \<open>
  An entry \<open>x\<close> of the target's \<^verbatim>\<open>volumes\<close> list is shadowed by the incoming entries
  \<open>ys\<close> when it has a colon and its second colon-separated segment is the second
  segment of an incoming entry that has a colon.
\<close>

definition shadowed :: "string list \<Rightarrow> string \<Rightarrow> bool" where
  "shadowed ys x \<longleftrightarrow>
     CHR '':'' \<in> set x \<and> split1 x \<in> set (map split1 (filter (\<lambda>y. CHR '':'' \<in> set y) ys))"


section \<open>Substitution engine\<close>

text \<open>
  \<^verbatim>\<open>var_re\<close> is the regular expression
  \<^verbatim>\<open>\$(?: (\$) | ([_a-zA-Z][_a-zA-Z0-9]*) | (?:{ ([_a-zA-Z][_a-zA-Z0-9]*) (?:(:)?(?: (?:-([^}]*)) | (?:\?([^}]*)) ))? }) )\<close>
  with the groups \<^verbatim>\<open>escaped\<close>, \<^verbatim>\<open>named\<close>, \<^verbatim>\<open>braced\<close>, \<^verbatim>\<open>empty\<close>, \<^verbatim>\<open>default\<close>, \<^verbatim>\<open>err\<close>.
  The three alternatives start with different characters, the name is followed by a
  character that is not a name character, and \<^verbatim>\<open>[^}]*\<close> stops at the first closing
  brace: a match at a position is unique, and the matcher below finds it without
  backtracking. A match object is the record of its six groups.
\<close>

definition ident_start :: "char \<Rightarrow> bool" where
  "ident_start c \<longleftrightarrow> c \<in> set ''_abcdefghijklmnopqrstuvwxyzABCDEFGHIJKLMNOPQRSTUVWXYZ''"

definition ident_char :: "char \<Rightarrow> bool" where
  "ident_char c \<longleftrightarrow> ident_start c \<or> c \<in> set ''0123456789''"

record rematch =
  g_escaped :: "string option"
  g_named :: "string option"
  g_braced :: "string option"
  g_empty :: "string option"
  g_default :: "string option"
  g_err :: "string option"

definition no_groups :: rematch where
  "no_groups = \<lparr>g_escaped = None, g_named = None, g_braced = None, g_empty = None,
                 g_default = None, g_err = None\<rparr>"

text \<open>\<^verbatim>\<open>[^}]*}\<close>: the text up to the first closing brace, and what follows the brace.\<close>

definition closing :: "string \<Rightarrow> (string \<times> string) option" where
  "closing s =
     (case dropWhile (\<lambda>c. c \<noteq> CHR ''}'') s of
        [] \<Rightarrow> None
      | _ # rest \<Rightarrow> Some (takeWhile (\<lambda>c. c \<noteq> CHR ''}'') s, rest))"

text \<open>
  The alternatives \<^verbatim>\<open>-default\<close> and \<^verbatim>\<open>?err\<close> with the closing brace, after the name and
  the optional colon.
\<close>

definition match_tail :: "rematch \<Rightarrow> string \<Rightarrow> (rematch \<times> string) option" where
  "match_tail m s =
     (case s of
        [] \<Rightarrow> None
      | c # r \<Rightarrow>
          if c = CHR ''-'' then
            (case closing r of
               None \<Rightarrow> None
             | Some (d, rest) \<Rightarrow> Some (m\<lparr>g_default := Some d\<rparr>, rest))
          else if c = CHR ''?'' then
            (case closing r of
               None \<Rightarrow> None
             | Some (e, rest) \<Rightarrow> Some (m\<lparr>g_err := Some e\<rparr>, rest))
          else None)"

text \<open>
  The text after \<^verbatim>\<open>${\<close>: a name, then the closing brace or the optional part. After a
  colon only \<^verbatim>\<open>-\<close> or \<^verbatim>\<open>?\<close> can follow.
\<close>

definition match_braced :: "string \<Rightarrow> (rematch \<times> string) option" where
  "match_braced s =
     (if s \<noteq> [] \<and> ident_start (hd s) then
        (let name = takeWhile ident_char s;
             m = no_groups\<lparr>g_braced := Some name\<rparr>
         in case dropWhile ident_char s of
              [] \<Rightarrow> None
            | c # r \<Rightarrow>
                if c = CHR ''}'' then Some (m, r)
                else if c = CHR '':'' then match_tail (m\<lparr>g_empty := Some '':''\<rparr>) r
                else match_tail m (c # r))
      else None)"

text \<open>A match of \<^verbatim>\<open>var_re\<close> that starts at the head of the text, and the text after it.\<close>

definition var_re_match :: "string \<Rightarrow> (rematch \<times> string) option" where
  "var_re_match s =
     (case s of
        c0 # c # rest \<Rightarrow>
          if c0 \<noteq> CHR ''$'' then None
          else if c = CHR ''$'' then Some (no_groups\<lparr>g_escaped := Some ''$''\<rparr>, rest)
          else if ident_start c then
            Some (no_groups\<lparr>g_named := Some (takeWhile ident_char (c # rest))\<rparr>,
                  dropWhile ident_char (c # rest))
          else if c = CHR ''{'' then match_braced rest
          else None
      | _ \<Rightarrow> None)"

text \<open>Python's \<^verbatim>\<open>a or b\<close> on groups: \<^verbatim>\<open>None\<close> and the empty string are falsy.\<close>

definition py_or :: "string option \<Rightarrow> string option \<Rightarrow> string option" where
  "py_or a b = (case a of None \<Rightarrow> b | Some s \<Rightarrow> if s = [] then b else Some s)"

text \<open>
  \<^verbatim>\<open>str(value)\<close>. On a string it is the string. Python's builtin rendering of the other
  values is not part of this program; it is the parameter \<open>str_of\<close>.
\<close>

definition py_str :: "(pyval \<Rightarrow> string) \<Rightarrow> pyval \<Rightarrow> string" where
  "py_str str_of v = (case v of PStr s \<Rightarrow> s | _ \<Rightarrow> str_of v)"

text \<open>
  The closure \<^verbatim>\<open>convert(m)\<close> of \<^verbatim>\<open>rec_subs\<close>. The variable environment maps names to
  values; \<^verbatim>\<open>subs_dict.get(name)\<close> is \<^verbatim>\<open>None\<close> for an absent name and for a name bound to
  \<^verbatim>\<open>None\<close>. The exception is a \<^verbatim>\<open>RuntimeError\<close> carrying the text of the \<^verbatim>\<open>err\<close> group.
\<close>

definition convert :: "(pyval \<Rightarrow> string) \<Rightarrow> (string \<rightharpoonup> pyval) \<Rightarrow> rematch \<Rightarrow> error + string" where
  "convert str_of subs_dict m =
     (if g_escaped m \<noteq> None then Inr ''$''
      else
        (let name = py_or (g_named m) (g_braced m);
             val = (case name of None \<Rightarrow> None | Some n \<Rightarrow> subs_dict n);
             val = (if val = Some (PStr '''') \<and> py_or (g_empty m) None \<noteq> None then None
                    else if val = Some PNone then None else val)
         in case val of
              Some v \<Rightarrow> Inr (py_str str_of v)
            | None \<Rightarrow>
                (case g_err m of
                   Some e \<Rightarrow> Inl (RuntimeError e)
                 | None \<Rightarrow> Inr (case py_or (g_default m) (Some '''') of Some d \<Rightarrow> d | None \<Rightarrow> ''''))))"

lemma closing_shorter: "closing s = Some (d, rest) \<Longrightarrow> length rest < length s"
proof -
  assume a: "closing s = Some (d, rest)"
  then obtain x where "dropWhile (\<lambda>c. c \<noteq> CHR ''}'') s = x # rest"
    by (auto simp: closing_def split: list.splits)
  then have "length rest < length (dropWhile (\<lambda>c. c \<noteq> CHR ''}'') s)" by simp
  also have "\<dots> \<le> length s" by (rule length_dropWhile_le)
  finally show ?thesis .
qed

lemma match_tail_shorter: "match_tail m s = Some (m', rest) \<Longrightarrow> length rest < length s"
  by (auto simp: match_tail_def split: list.splits if_splits option.splits
           dest!: closing_shorter)

lemma match_braced_shorter: "match_braced s = Some (m', rest) \<Longrightarrow> length rest < length s"
proof -
  assume a: "match_braced s = Some (m', rest)"
  have le: "length (dropWhile ident_char s) \<le> length s" by (rule length_dropWhile_le)
  from a show ?thesis
    using le
    by (auto simp: match_braced_def Let_def split: list.splits if_splits
             dest!: match_tail_shorter)
qed

lemma var_re_match_shorter: "var_re_match s = Some (m, rest) \<Longrightarrow> length rest < length s"
proof -
  assume a: "var_re_match s = Some (m, rest)"
  then obtain c0 c r where s: "s = c0 # c # r"
    by (auto simp: var_re_match_def split: list.splits)
  have le: "length (dropWhile ident_char (c # r)) \<le> length (c # r)" by (rule length_dropWhile_le)
  from a s le show ?thesis
    by (auto simp: var_re_match_def split: if_splits dest!: match_braced_shorter)
qed

text \<open>
  \<^verbatim>\<open>var_re.sub(convert, value)\<close>: scan from the left; at a match, call \<^verbatim>\<open>convert\<close> and go on
  after the match (the replacement is not scanned again); elsewhere copy one character.
\<close>

function var_re_sub :: "(pyval \<Rightarrow> string) \<Rightarrow> (string \<rightharpoonup> pyval) \<Rightarrow> string \<Rightarrow> error + string" where
  "var_re_sub str_of subs_dict [] = Inr []"
| "var_re_sub str_of subs_dict (c # cs) =
     (case var_re_match (c # cs) of
        None \<Rightarrow>
          (case var_re_sub str_of subs_dict cs of Inl e \<Rightarrow> Inl e | Inr t \<Rightarrow> Inr (c # t))
      | Some (m, rest) \<Rightarrow>
          (case convert str_of subs_dict m of
             Inl e \<Rightarrow> Inl e
           | Inr r \<Rightarrow>
               (case var_re_sub str_of subs_dict rest of
                  Inl e \<Rightarrow> Inl e
                | Inr t \<Rightarrow> Inr (r @ t))))"
  by pat_completeness auto
termination var_re_sub
  by (relation "measure (\<lambda>(f, d, s). length s)") (auto dest: var_re_match_shorter)

text \<open>The results of a comprehension, in order; the first exception ends it.\<close>

fun sequence :: "('e + 'a) list \<Rightarrow> 'e + 'a list" where
  "sequence [] = Inr []"
| "sequence (x # xs) =
     (case x of
        Inl e \<Rightarrow> Inl e
      | Inr v \<Rightarrow> (case sequence xs of Inl e \<Rightarrow> Inl e | Inr vs \<Rightarrow> Inr (v # vs)))"

fun items :: "pyval \<Rightarrow> pydict" where
  "items (PDict d) = d"
| "items _ = []"

text \<open>
  \<^verbatim>\<open>rec_subs(value, subs_dict)\<close>. For a dict with an \<^verbatim>\<open>environment\<close> sub-dict,
  \<open>service_env\<close> is the scoped environment: the entries of the sub-dict whose names the
  environment lacks are added, substituted under the extended environment, and added
  again. A set is iterated in some order; the model takes the order of its list.
\<close>

function rec_subs :: "(pyval \<Rightarrow> string) \<Rightarrow> pyval \<Rightarrow> (string \<rightharpoonup> pyval) \<Rightarrow> error + pyval"
  and service_env :: "(pyval \<Rightarrow> string) \<Rightarrow> pydict \<Rightarrow> (string \<rightharpoonup> pyval) \<Rightarrow> error + (string \<rightharpoonup> pyval)"
where
  "rec_subs str_of (PDict val) subs_dict =
     (case service_env str_of val subs_dict of
        Inl e \<Rightarrow> Inl e
      | Inr sd \<Rightarrow>
          (case sequence (map (\<lambda>kv. case rec_subs str_of (snd kv) sd of
                                      Inl e \<Rightarrow> Inl e
                                    | Inr v \<Rightarrow> Inr (fst kv, v)) val) of
             Inl e \<Rightarrow> Inl e
           | Inr d \<Rightarrow> Inr (PDict d)))"
| "rec_subs str_of (PStr s) subs_dict =
     (case var_re_sub str_of subs_dict s of Inl e \<Rightarrow> Inl e | Inr t \<Rightarrow> Inr (PStr t))"
| "rec_subs str_of (PList xs) subs_dict =
     (case sequence (map (\<lambda>i. rec_subs str_of i subs_dict) xs) of
        Inl e \<Rightarrow> Inl e
      | Inr ys \<Rightarrow> Inr (PList ys))"
| "rec_subs str_of (PDeps es) subs_dict = Inr (PList (map (\<lambda>e. PDep (fst e) (snd e)) es))"
| "rec_subs str_of (PStrs ss) subs_dict =
     (case sequence (map (\<lambda>s. var_re_sub str_of subs_dict s) ss) of
        Inl e \<Rightarrow> Inl e
      | Inr ts \<Rightarrow> Inr (PList (map PStr ts)))"
| "rec_subs str_of PNone subs_dict = Inr PNone"
| "rec_subs str_of (PBool b) subs_dict = Inr (PBool b)"
| "rec_subs str_of (PInt i) subs_dict = Inr (PInt i)"
| "rec_subs str_of (PDep n c) subs_dict = Inr (PDep n c)"
| "service_env str_of val subs_dict =
     (case map_of val ''environment'' of
        Some (PDict env) \<Rightarrow>
          (let svc_envs = filter (\<lambda>kv. subs_dict (fst kv) = None) env;
               subs_dict1 = subs_dict ++ map_of svc_envs
           in case rec_subs str_of (PDict svc_envs) subs_dict1 of
                Inl e \<Rightarrow> Inl e
              | Inr r \<Rightarrow> Inr (subs_dict1 ++ map_of (items r)))
      | _ \<Rightarrow> Inr subs_dict)"
  by pat_completeness auto

lemma size_map_of_lt:
  "map_of d k = Some v \<Longrightarrow> size v < size_list (size_prod (\<lambda>x. 0) size) d"
  by (induction d) (auto split: if_splits)

lemma size_in_dict_lt:
  "kv \<in> set d \<Longrightarrow> size (snd kv) < size_list (size_prod (\<lambda>x. 0) size) d"
  by (induction d) auto

lemma size_in_list_lt: "x \<in> set xs \<Longrightarrow> size x < Suc (size_list size xs)"
  by (induction xs) auto

termination rec_subs
proof (relation "(\<lambda>x. case x of Inl (f, v, d) \<Rightarrow> size v | Inr (f, val, d) \<Rightarrow> size (PDict val))
    <*mlex*> measure (\<lambda>x. case x of Inl _ \<Rightarrow> Suc 0 | Inr _ \<Rightarrow> 0)", goal_cases)
  case 1
  then show ?case by (simp add: wf_mlex)
next
  case (2 str_of val subs_dict)
  then show ?case by (simp add: mlex_iff)
next
  case (3 str_of val subs_dict sd kv)
  then show ?case using size_in_dict_lt[of kv val] by (simp add: mlex_iff)
next
  case (4 str_of xs subs_dict i)
  then show ?case using size_in_list_lt[of i xs] by (simp add: mlex_iff)
next
  case (5 str_of val subs_dict x2 x6 x xa)
  have "size (PDict x6) < size_list (size_prod (\<lambda>x. 0) size) val"
    using size_map_of_lt[of val "''environment''" "PDict x6"] 5 by simp
  moreover have "size_list (size_prod (\<lambda>x. 0) size) x \<le> size_list (size_prod (\<lambda>x. 0) size) x6"
    using 5 by (simp add: size_list_filter_le)
  ultimately show ?case by (simp add: mlex_iff)
qed

text \<open>A variable name as \<^verbatim>\<open>var_re\<close> reads it.\<close>

definition valid_name :: "string \<Rightarrow> bool" where
  "valid_name n \<longleftrightarrow> n \<noteq> [] \<and> ident_start (hd n) \<and> list_all ident_char n"

text \<open>
  The texts at which \<^verbatim>\<open>var_re.sub\<close> looks for a match, from left to right: the whole
  text, then what is left after each match or after each character that is copied.
  \<open>raised\<close> is the exception that \<^verbatim>\<open>convert\<close> raises for the match at the head of a
  text, if there is a match and \<^verbatim>\<open>convert\<close> raises.
\<close>

function scan :: "string \<Rightarrow> string list" where
  "scan [] = []"
| "scan (c # cs) =
     (c # cs) # (case var_re_match (c # cs) of None \<Rightarrow> scan cs | Some (m, rest) \<Rightarrow> scan rest)"
  by pat_completeness auto
termination scan
  by (relation "measure length") (auto dest: var_re_match_shorter)

definition raised :: "(pyval \<Rightarrow> string) \<Rightarrow> (string \<rightharpoonup> pyval) \<Rightarrow> string \<Rightarrow> error option" where
  "raised str_of subs_dict t =
     (case var_re_match t of
        None \<Rightarrow> None
      | Some (m, rest) \<Rightarrow>
          (case convert str_of subs_dict m of Inl e \<Rightarrow> Some e | Inr r \<Rightarrow> None))"

text \<open>
  The lookup of \<^verbatim>\<open>convert\<close> finds no value: the name is absent, or bound to \<^verbatim>\<open>None\<close>, or,
  for the forms with a colon, bound to the empty string.
\<close>

definition unset :: "(string \<rightharpoonup> pyval) \<Rightarrow> string \<Rightarrow> string \<Rightarrow> bool" where
  "unset subs_dict colon n \<longleftrightarrow>
     subs_dict n = None \<or> subs_dict n = Some PNone
     \<or> (colon = '':'' \<and> subs_dict n = Some (PStr ''''))"

section \<open>Dependency graph builder\<close>

text \<open>Python's truth value of a value, as \<^verbatim>\<open>if x:\<close> and \<^verbatim>\<open>not x\<close> read it.\<close>

fun truthy :: "pyval \<Rightarrow> bool" where
  "truthy PNone = False"
| "truthy (PBool b) = b"
| "truthy (PInt i) = (i \<noteq> 0)"
| "truthy (PStr s) = (s \<noteq> [])"
| "truthy (PList xs) = (xs \<noteq> [])"
| "truthy (PDict d) = (d \<noteq> [])"
| "truthy (PDeps es) = (es \<noteq> [])"
| "truthy (PStrs ss) = (ss \<noteq> [])"
| "truthy (PDep n c) = True"

text \<open>
  \<^verbatim>\<open>d[k] = v\<close>: an existing key keeps its place, a new key goes to the end.
  \<^verbatim>\<open>del d[k]\<close> raises \<^verbatim>\<open>KeyError\<close> when the key is missing.
\<close>

fun dict_set :: "pydict \<Rightarrow> string \<Rightarrow> pyval \<Rightarrow> pydict" where
  "dict_set [] k v = [(k, v)]"
| "dict_set ((k', v') # d) k v = (if k' = k then (k, v) # d else (k', v') # dict_set d k v)"

definition dict_del :: "pydict \<Rightarrow> string \<Rightarrow> error + pydict" where
  "dict_del d k =
     (if k \<in> set (keys d) then Inr (filter (\<lambda>kv. fst kv \<noteq> k) d) else Inl (KeyError k))"

text \<open>The value of each member of \<^verbatim>\<open>ServiceDependencyCondition\<close>.\<close>

fun cond_value :: "cond \<Rightarrow> string" where
  "cond_value CONFIGURED = ''configured''"
| "cond_value CREATED = ''created''"
| "cond_value EXITED = ''exited''"
| "cond_value HEALTHY = ''healthy''"
| "cond_value INITIALIZED = ''initialized''"
| "cond_value PAUSED = ''paused''"
| "cond_value REMOVING = ''removing''"
| "cond_value RUNNING = ''running''"
| "cond_value STOPPED = ''stopped''"
| "cond_value STOPPING = ''stopping''"
| "cond_value UNHEALTHY = ''unhealthy''"

definition members :: "cond list" where
  "members = [CONFIGURED, CREATED, EXITED, HEALTHY, INITIALIZED, PAUSED, REMOVING, RUNNING,
              STOPPED, STOPPING, UNHEALTHY]"

definition docker_to_podman_cond :: "(string \<times> cond) list" where
  "docker_to_podman_cond =
     [(''service_healthy'', HEALTHY), (''service_started'', RUNNING),
      (''service_completed_successfully'', STOPPED)]"

text \<open>
  \<^verbatim>\<open>ServiceDependencyCondition.from_value\<close>: the member with that value, else the entry of
  \<^verbatim>\<open>docker_to_podman_cond\<close>, else a \<^verbatim>\<open>ValueError\<close> (\<open>InvalidCondition\<close>, carrying the
  value). A list, dict or set cannot be looked up in a dict (\<^verbatim>\<open>TypeError\<close>).
\<close>

definition from_value :: "pyval \<Rightarrow> error + cond" where
  "from_value v =
     (case find (\<lambda>member. PStr (cond_value member) = v) members of
        Some member \<Rightarrow> Inr member
      | None \<Rightarrow>
          (case v of
             PStr s \<Rightarrow>
               (case map_of docker_to_podman_cond s of
                  Some c \<Rightarrow> Inr c
                | None \<Rightarrow> Inl (InvalidCondition v))
           | PList _ \<Rightarrow> Inl PyTypeError
           | PDict _ \<Rightarrow> Inl PyTypeError
           | PDeps _ \<Rightarrow> Inl PyTypeError
           | PStrs _ \<Rightarrow> Inl PyTypeError
           | _ \<Rightarrow> Inl (InvalidCondition v)))"

text \<open>
  A \<^verbatim>\<open>ServiceDependency\<close> object is its name and its condition: equality and hash of
  the class use exactly these two. The constructor converts the condition.
\<close>

type_synonym edge = "string \<times> cond"

definition ServiceDependency :: "string \<Rightarrow> pyval \<Rightarrow> error + edge" where
  "ServiceDependency name condition =
     (case from_value condition of Inl e \<Rightarrow> Inl e | Inr c \<Rightarrow> Inr (name, c))"

text \<open>\<^verbatim>\<open>s.update(new)\<close> on a set: the elements of \<open>new\<close> that \<open>s\<close> lacks are added.\<close>

definition set_update :: "'a list \<Rightarrow> 'a list \<Rightarrow> 'a list" where
  "set_update s new = s @ remdups (filter (\<lambda>x. x \<notin> set s) new)"

text \<open>
  \<^verbatim>\<open>srv["_deps"]\<close>, \<^verbatim>\<open>services[name]["_deps"]\<close>, and the update in place of the set stored
  there. \<^verbatim>\<open>flat_deps\<close> stores a set in every service before \<^verbatim>\<open>rec_deps\<close> runs.
\<close>

definition srv_deps :: "pyval \<Rightarrow> error + edge list" where
  "srv_deps srv =
     (case srv of
        PDict d \<Rightarrow>
          (case map_of d ''_deps'' of
             None \<Rightarrow> Inl (KeyError ''_deps'')
           | Some (PDeps es) \<Rightarrow> Inr es
           | Some _ \<Rightarrow> Inl PyTypeError)
      | _ \<Rightarrow> Inl PyTypeError)"

definition get_deps :: "pydict \<Rightarrow> string \<Rightarrow> error + edge list" where
  "get_deps services name =
     (case map_of services name of
        None \<Rightarrow> Inl (KeyError name)
      | Some srv \<Rightarrow> srv_deps srv)"

definition put_deps :: "pydict \<Rightarrow> string \<Rightarrow> edge list \<Rightarrow> pydict" where
  "put_deps services name es =
     (case map_of services name of
        Some (PDict d) \<Rightarrow> dict_set services name (PDict (dict_set d ''_deps'' (PDeps es)))
      | _ \<Rightarrow> services)"

text \<open>
  \<^verbatim>\<open>rec_deps(services, service_name, start_point)\<close>. The function updates the sets of
  the services in place, so the model passes the services and returns them with the
  result. \<open>rec_deps_loop\<close> is the loop over \<^verbatim>\<open>deps.copy()\<close>: the copy is taken once, the
  tests inside the loop read the current sets. Python iterates a set in an order that
  depends on the hashes of its elements; \<open>iter\<close> is that order (the properties below
  hold for every order). The recursion has no bound of its own: the first argument of
  the model is the recursion depth that is left, and \<open>None\<close> says it was used up.
  A falsy \<^verbatim>\<open>start_point\<close> (\<^verbatim>\<open>None\<close> or the empty string) stands for \<open>service_name\<close>.
\<close>

fun rec_deps ::
    "(edge list \<Rightarrow> edge list) \<Rightarrow> nat \<Rightarrow> pydict \<Rightarrow> string \<Rightarrow> string option
      \<Rightarrow> (error + pydict \<times> edge list) option"
  and rec_deps_loop ::
    "(edge list \<Rightarrow> edge list) \<Rightarrow> nat \<Rightarrow> pydict \<Rightarrow> string \<Rightarrow> string \<Rightarrow> edge list
      \<Rightarrow> (error + pydict) option"
where
  "rec_deps iter 0 services service_name start_point = None"
| "rec_deps iter (Suc n) services service_name start_point =
     (let start = (case start_point of
                     None \<Rightarrow> service_name
                   | Some s \<Rightarrow> if s = [] then service_name else s)
      in case get_deps services service_name of
           Inl e \<Rightarrow> Some (Inl e)
         | Inr deps \<Rightarrow>
             (case rec_deps_loop iter n services service_name start (iter deps) of
                None \<Rightarrow> None
              | Some (Inl e) \<Rightarrow> Some (Inl e)
              | Some (Inr services') \<Rightarrow>
                  (case get_deps services' service_name of
                     Inl e \<Rightarrow> Some (Inl e)
                   | Inr deps' \<Rightarrow> Some (Inr (services', deps')))))"
| "rec_deps_loop iter n services service_name start [] = Some (Inr services)"
| "rec_deps_loop iter n services service_name start (dep_name # rest) =
     (if fst dep_name = service_name then rec_deps_loop iter n services service_name start rest
      else
        (case map_of services (fst dep_name) of
           None \<Rightarrow> rec_deps_loop iter n services service_name start rest
         | Some dep_srv \<Rightarrow>
             if \<not> truthy dep_srv then rec_deps_loop iter n services service_name start rest
             else
               (case srv_deps dep_srv of
                  Inl e \<Rightarrow> Some (Inl e)
                | Inr dd \<Rightarrow>
                    if start \<in> fst ` set dd then
                      rec_deps_loop iter n services service_name start rest
                    else
                      (case rec_deps iter n services (fst dep_name) (Some start) of
                         None \<Rightarrow> None
                       | Some (Inl e) \<Rightarrow> Some (Inl e)
                       | Some (Inr (services', new_deps)) \<Rightarrow>
                           (case get_deps services' service_name of
                              Inl e \<Rightarrow> Some (Inl e)
                            | Inr deps \<Rightarrow>
                                rec_deps_loop iter n
                                  (put_deps services' service_name (set_update deps new_deps))
                                  service_name start rest)))))"

text \<open>\<^verbatim>\<open>d.get(k, default)\<close>\<close>

definition py_get :: "pydict \<Rightarrow> string \<Rightarrow> pyval \<Rightarrow> pyval" where
  "py_get d k dflt = (case map_of d k of None \<Rightarrow> dflt | Some v \<Rightarrow> v)"

text \<open>\<^verbatim>\<open>srv.get("extends", {}).get("service")\<close>\<close>

definition extends_service :: "pydict \<Rightarrow> error + pyval" where
  "extends_service srv =
     (case py_get srv ''extends'' (PDict []) of
        PDict e \<Rightarrow> Inr (py_get e ''service'' PNone)
      | _ \<Rightarrow> Inl PyTypeError)"

text \<open>\<^verbatim>\<open>[ServiceDependency(k, v["condition"]) for k, v in deps_ls.items()]\<close>\<close>

fun depends_on_edges :: "pydict \<Rightarrow> error + edge list" where
  "depends_on_edges [] = Inr []"
| "depends_on_edges ((k, v) # rest) =
     (case v of
        PDict vd \<Rightarrow>
          (case map_of vd ''condition'' of
             None \<Rightarrow> Inl (KeyError ''condition'')
           | Some c \<Rightarrow>
               (case ServiceDependency k c of
                  Inl e \<Rightarrow> Inl e
                | Inr d \<Rightarrow>
                    (case depends_on_edges rest of Inl e \<Rightarrow> Inl e | Inr ds \<Rightarrow> Inr (d # ds))))
      | _ \<Rightarrow> Inl PyTypeError)"

text \<open>
  The entries of \<^verbatim>\<open>links\<close> as the two loops over \<^verbatim>\<open>links_ls\<close> read them: a value that
  is not a list is wrapped into one, and every entry must be a string
  (\<^verbatim>\<open>c.split(":")\<close>).
\<close>

fun strings_of :: "pyval list \<Rightarrow> error + string list" where
  "strings_of [] = Inr []"
| "strings_of (PStr s # vs) =
     (case strings_of vs of Inl e \<Rightarrow> Inl e | Inr ss \<Rightarrow> Inr (s # ss))"
| "strings_of (_ # vs) = Inl PyTypeError"

fun link_strings :: "pyval \<Rightarrow> error + string list" where
  "link_strings (PList xs) = strings_of xs"
| "link_strings (PStrs ss) = Inr ss"
| "link_strings (PDeps es) = (if es = [] then Inr [] else Inl PyTypeError)"
| "link_strings (PStr s) = Inr [s]"
| "link_strings _ = Inl PyTypeError"

text \<open>\<^verbatim>\<open>c.split(":")\<close>\<close>

fun split_colon :: "string \<Rightarrow> string list" where
  "split_colon [] = [[]]"
| "split_colon (c # cs) =
     (if c = CHR '':'' then [] # split_colon cs
      else (case split_colon cs of p # ps \<Rightarrow> (c # p) # ps | [] \<Rightarrow> [[c]]))"

text \<open>
  The loop that registers the alias of a link \<^verbatim>\<open>name:alias\<close> in the \<^verbatim>\<open>_aliases\<close> set of
  the target service. A link with more than one colon cannot be unpacked into two names.
\<close>

definition add_alias :: "pydict \<Rightarrow> string \<Rightarrow> string \<Rightarrow> error + pydict" where
  "add_alias services dep_name dep_alias =
     (case map_of services dep_name of
        None \<Rightarrow> Inl (KeyError dep_name)
      | Some (PDict d) \<Rightarrow>
          (case py_get d ''_aliases'' (PStrs []) of
             PStrs ss \<Rightarrow>
               Inr (dict_set services dep_name
                     (PDict (dict_set d ''_aliases'' (PStrs (set_update ss [dep_alias])))))
           | PDeps _ \<Rightarrow> Inl OutOfModel
           | _ \<Rightarrow> Inl PyTypeError)
      | Some _ \<Rightarrow> Inl PyTypeError)"

fun add_aliases :: "pydict \<Rightarrow> string list \<Rightarrow> error + pydict" where
  "add_aliases services [] = Inr services"
| "add_aliases services (c # links_ls) =
     (if CHR '':'' \<in> set c then
        (case split_colon c of
           [dep_name, dep_alias] \<Rightarrow>
             (case add_alias services dep_name dep_alias of
                Inl e \<Rightarrow> Inl e
              | Inr services' \<Rightarrow> add_aliases services' links_ls)
         | _ \<Rightarrow> Inl (ValueError ''too many values to unpack (expected 2)''))
      else add_aliases services links_ls)"

text \<open>
  The body of the first loop of \<^verbatim>\<open>flat_deps\<close> for one service: a new set is stored under
  \<^verbatim>\<open>_deps\<close>, then filled from \<^verbatim>\<open>extends\<close> (with \<^verbatim>\<open>with_extends\<close>, and then nothing else) or
  from \<^verbatim>\<open>depends_on\<close> and \<^verbatim>\<open>links\<close>. A dependency name that is not a string is outside
  the model.
\<close>

definition flat_deps_service :: "bool \<Rightarrow> pydict \<Rightarrow> string \<Rightarrow> error + pydict" where
  "flat_deps_service with_extends services name =
     (case map_of services name of
        Some (PDict srv0) \<Rightarrow>
          (let srv = dict_set srv0 ''_deps'' (PDeps []);
               services1 = dict_set services name (PDict srv)
           in case (if with_extends then extends_service srv else Inr PNone) of
                Inl e \<Rightarrow> Inl e
              | Inr ext \<Rightarrow>
                  if with_extends \<and> truthy ext then
                    (case ext of
                       PStr e \<Rightarrow>
                         if e \<noteq> name then
                           (case ServiceDependency e (PStr ''service_started'') of
                              Inl err \<Rightarrow> Inl err
                            | Inr d \<Rightarrow> Inr (put_deps services1 name [d]))
                         else Inr services1
                     | _ \<Rightarrow> Inl OutOfModel)
                  else
                    (case py_get srv ''depends_on'' (PDict []) of
                       PDict deps_ls \<Rightarrow>
                         (case depends_on_edges deps_ls of
                            Inl e \<Rightarrow> Inl e
                          | Inr ds \<Rightarrow>
                              (case link_strings (py_get srv ''links'' (PList [])) of
                                 Inl e \<Rightarrow> Inl e
                               | Inr links_ls \<Rightarrow>
                                   add_aliases
                                     (put_deps services1 name
                                        (set_update (set_update [] ds)
                                           (map (\<lambda>c. (hd (split_colon c), RUNNING)) links_ls)))
                                     links_ls))
                     | _ \<Rightarrow> Inl PyTypeError))
      | Some _ \<Rightarrow> Inl PyTypeError
      | None \<Rightarrow> Inl (KeyError name))"

text \<open>
  \<^verbatim>\<open>flat_deps(services, with_extends)\<close>: the first loop seeds the direct edges of every
  service, the second calls \<^verbatim>\<open>rec_deps(services, name)\<close> for every service, in the order
  of the dict.
\<close>

fun flat_deps_seed :: "bool \<Rightarrow> pydict \<Rightarrow> string list \<Rightarrow> error + pydict" where
  "flat_deps_seed with_extends services [] = Inr services"
| "flat_deps_seed with_extends services (name # names) =
     (case flat_deps_service with_extends services name of
        Inl e \<Rightarrow> Inl e
      | Inr services' \<Rightarrow> flat_deps_seed with_extends services' names)"

fun flat_deps_expand ::
  "(edge list \<Rightarrow> edge list) \<Rightarrow> nat \<Rightarrow> pydict \<Rightarrow> string list \<Rightarrow> (error + pydict) option" where
  "flat_deps_expand iter fuel services [] = Some (Inr services)"
| "flat_deps_expand iter fuel services (name # names) =
     (case rec_deps iter fuel services name None of
        None \<Rightarrow> None
      | Some (Inl e) \<Rightarrow> Some (Inl e)
      | Some (Inr (services', deps)) \<Rightarrow> flat_deps_expand iter fuel services' names)"

definition flat_deps ::
  "(edge list \<Rightarrow> edge list) \<Rightarrow> nat \<Rightarrow> pydict \<Rightarrow> bool \<Rightarrow> (error + pydict) option" where
  "flat_deps iter fuel services with_extends =
     (case flat_deps_seed with_extends services (keys services) of
        Inl e \<Rightarrow> Some (Inl e)
      | Inr services1 \<Rightarrow> flat_deps_expand iter fuel services1 (keys services1))"

subsection \<open>\<^verbatim>\<open>normalize_service\<close>\<close>

text \<open>
  \<^verbatim>\<open>normalize_service(service, sub_dir)\<close> is a sequence of blocks, each rewriting one or a
  few keys of the service in place; the model has one function for each block, in the
  order of the source. \<^verbatim>\<open>shlex.split\<close> and \<^verbatim>\<open>str\<close> belong to Python's library: they are the
  parameters \<open>shlex_split\<close> (which can raise) and \<open>str_of\<close>. A method that a value does not
  have (\<^verbatim>\<open>get\<close>, \<^verbatim>\<open>startswith\<close>, \<^verbatim>\<open>split\<close>, \<^verbatim>\<open>items\<close>, \<^verbatim>\<open>setdefault\<close>) is an
  \<^verbatim>\<open>AttributeError\<close>. The sets and the dependency objects that \<^verbatim>\<open>flat_deps\<close> builds later do
  not occur in a document that is being normalized; on them the model stops with
  \<open>OutOfModel\<close>.
\<close>

text \<open>
  \<^verbatim>\<open>if "build" in service\<close>: a \<^verbatim>\<open>build\<close> given as a string becomes \<^verbatim>\<open>{"context": build}\<close>.
\<close>

definition build_to_dict :: "pydict \<Rightarrow> pydict" where
  "build_to_dict service =
     (case map_of service ''build'' of
        Some (PStr b) \<Rightarrow> dict_set service ''build'' (PDict [(''context'', PStr b)])
      | _ \<Rightarrow> service)"

text \<open>
  \<^verbatim>\<open>os.path.join(a, b)\<close> of \<^verbatim>\<open>posixpath\<close>, \<^verbatim>\<open>context.rstrip("/")\<close>, and the context that the block
  under \<^verbatim>\<open>if sub_dir and "build" in service\<close> computes (there \<open>sub_dir\<close> is not empty, so the
  test \<^verbatim>\<open>if context or sub_dir\<close> holds and the join is done).
\<close>

definition path_join :: "string \<Rightarrow> string \<Rightarrow> string" where
  "path_join a b =
     (if b \<noteq> [] \<and> hd b = CHR ''/'' then b
      else if a = [] \<or> last a = CHR ''/'' then a @ b
      else a @ ''/'' @ b)"

definition rstrip_slash :: "string \<Rightarrow> string" where
  "rstrip_slash s = rev (dropWhile (\<lambda>c. c = CHR ''/'') (rev s))"

definition sub_dir_context :: "string \<Rightarrow> string \<Rightarrow> string" where
  "sub_dir_context sub_dir context =
     (let context1 = (if take 2 context = ''./'' then drop 2 context else context);
          context2 = rstrip_slash (path_join sub_dir context1)
      in if context2 = [] then ''.'' else context2)"

definition build_context :: "string \<Rightarrow> pydict \<Rightarrow> error + pydict" where
  "build_context sub_dir service =
     (if sub_dir \<noteq> [] then
        (case map_of service ''build'' of
           None \<Rightarrow> Inr service
         | Some (PDict build) \<Rightarrow>
             (case py_get build ''context'' (PStr '''') of
                PStr context \<Rightarrow>
                  Inr (dict_set service ''build''
                         (PDict (dict_set build ''context''
                                   (PStr (sub_dir_context sub_dir context)))))
              | _ \<Rightarrow> Inl AttributeError)
         | Some _ \<Rightarrow> Inl AttributeError)
      else Inr service)"

text \<open>
  \<^verbatim>\<open>if "build" in service and "additional_contexts" in service["build"]\<close>. Where the test
  holds, the local \<^verbatim>\<open>build\<close> is the object \<^verbatim>\<open>service["build"]\<close>: the first block has
  replaced a string by a dict that has no such key. In a list the test is membership,
  and then \<^verbatim>\<open>build["additional_contexts"]\<close> is a \<^verbatim>\<open>TypeError\<close>; \<^verbatim>\<open>None\<close>, a number or a
  truth value has no \<^verbatim>\<open>in\<close>. Each entry becomes the f-string \<^verbatim>\<open>f"{k}={v}"\<close>.
\<close>

definition build_additional_contexts :: "(pyval \<Rightarrow> string) \<Rightarrow> pydict \<Rightarrow> error + pydict" where
  "build_additional_contexts str_of service =
     (case map_of service ''build'' of
        None \<Rightarrow> Inr service
      | Some (PDict build) \<Rightarrow>
          (case map_of build ''additional_contexts'' of
             Some (PDict additional_contexts) \<Rightarrow>
               Inr (dict_set service ''build''
                      (PDict (dict_set build ''additional_contexts''
                                (PList (map (\<lambda>kv. PStr (fst kv @ ''='' @ py_str str_of (snd kv)))
                                          additional_contexts)))))
           | _ \<Rightarrow> Inr service)
      | Some (PList xs) \<Rightarrow>
          if PStr ''additional_contexts'' \<in> set xs then Inl PyTypeError else Inr service
      | Some PNone \<Rightarrow> Inl PyTypeError
      | Some (PBool b) \<Rightarrow> Inl PyTypeError
      | Some (PInt i) \<Rightarrow> Inl PyTypeError
      | Some _ \<Rightarrow> Inl OutOfModel)"

text \<open>
  \<^verbatim>\<open>for key in ("command", "entrypoint")\<close>: a string is split by \<^verbatim>\<open>shlex.split\<close>; and
  \<^verbatim>\<open>for key in ("env_file", "security_opt", "volumes")\<close>: a string becomes the list of that
  string.
\<close>

definition split_command ::
  "(string \<Rightarrow> error + string list) \<Rightarrow> string \<Rightarrow> pydict \<Rightarrow> error + pydict" where
  "split_command shlex_split key service =
     (case map_of service key of
        Some (PStr s) \<Rightarrow>
          (case shlex_split s of
             Inl e \<Rightarrow> Inl e
           | Inr ws \<Rightarrow> Inr (dict_set service key (PList (map PStr ws))))
      | _ \<Rightarrow> Inr service)"

definition str_to_list :: "string \<Rightarrow> pydict \<Rightarrow> pydict" where
  "str_to_list key service =
     (case map_of service key of
        Some (PStr s) \<Rightarrow> dict_set service key (PList [PStr s])
      | _ \<Rightarrow> service)"

text \<open>
  \<^verbatim>\<open>if "security_opt" in service\<close>: in a list the items \<^verbatim>\<open>seccomp:unconfined\<close> and
  \<^verbatim>\<open>apparmor:unconfined\<close> get \<^verbatim>\<open>=\<close> for \<^verbatim>\<open>:\<close>. \<^verbatim>\<open>enumerate\<close> of a dict goes through its keys, and
  the assignment \<^verbatim>\<open>sec_ls[ix] = ...\<close> would then add a key that is a number, which the
  model does not have; the characters of a string are none of the two items.
\<close>

definition unconfined :: "pyval \<Rightarrow> bool" where
  "unconfined item \<longleftrightarrow> item = PStr ''seccomp:unconfined'' \<or> item = PStr ''apparmor:unconfined''"

definition sec_item :: "pyval \<Rightarrow> pyval" where
  "sec_item item =
     (case item of
        PStr s \<Rightarrow>
          if unconfined item then PStr (map (\<lambda>c. if c = CHR '':'' then CHR ''='' else c) s)
          else item
      | _ \<Rightarrow> item)"

definition security_opt :: "pydict \<Rightarrow> error + pydict" where
  "security_opt service =
     (case map_of service ''security_opt'' of
        None \<Rightarrow> Inr service
      | Some (PList sec_ls) \<Rightarrow> Inr (dict_set service ''security_opt'' (PList (map sec_item sec_ls)))
      | Some (PDict d) \<Rightarrow>
          if list_ex (\<lambda>kv. unconfined (PStr (fst kv))) d then Inl OutOfModel else Inr service
      | Some (PStr s) \<Rightarrow> Inr service
      | Some PNone \<Rightarrow> Inl PyTypeError
      | Some (PBool b) \<Rightarrow> Inl PyTypeError
      | Some (PInt i) \<Rightarrow> Inl PyTypeError
      | Some _ \<Rightarrow> Inl OutOfModel)"

text \<open>
  \<^verbatim>\<open>norm_as_dict(src)\<close>. \<open>split_eq\<close> is \<^verbatim>\<open>i.split("=", 1)\<close> read as a pair, with \<^verbatim>\<open>None\<close> for
  the value when there is no \<^verbatim>\<open>=\<close>; \<open>norm_pairs\<close> is the comprehension over the items that
  are true; \<^verbatim>\<open>dict(dst)\<close> assigns the pairs in order.
\<close>

definition split_eq :: "string \<Rightarrow> string \<times> pyval" where
  "split_eq s =
     (if CHR ''='' \<in> set s
      then (takeWhile (\<lambda>c. c \<noteq> CHR ''='') s, PStr (drop 1 (dropWhile (\<lambda>c. c \<noteq> CHR ''='') s)))
      else (s, PNone))"

fun norm_pairs :: "pyval list \<Rightarrow> error + (string \<times> pyval) list" where
  "norm_pairs [] = Inr []"
| "norm_pairs (i # src) =
     (if \<not> truthy i then norm_pairs src
      else
        (case i of
           PStr s \<Rightarrow> (case norm_pairs src of Inl e \<Rightarrow> Inl e | Inr ps \<Rightarrow> Inr (split_eq s # ps))
         | PDeps _ \<Rightarrow> Inl OutOfModel
         | PStrs _ \<Rightarrow> Inl OutOfModel
         | PDep _ _ \<Rightarrow> Inl OutOfModel
         | _ \<Rightarrow> Inl AttributeError))"

definition dict_of_pairs :: "(string \<times> pyval) list \<Rightarrow> pydict" where
  "dict_of_pairs ps = foldl (\<lambda>d kv. dict_set d (fst kv) (snd kv)) [] ps"

fun norm_as_dict :: "pyval \<Rightarrow> error + pydict" where
  "norm_as_dict PNone = Inr []"
| "norm_as_dict (PDict src) = Inr src"
| "norm_as_dict (PList src) =
     (case norm_pairs src of Inl e \<Rightarrow> Inl e | Inr ps \<Rightarrow> Inr (dict_of_pairs ps))"
| "norm_as_dict (PStr src) = Inr [split_eq src]"
| "norm_as_dict (PBool b) = Inl (ValueError ''dictionary or iterable is expected'')"
| "norm_as_dict (PInt i) = Inl (ValueError ''dictionary or iterable is expected'')"
| "norm_as_dict _ = Inl OutOfModel"

text \<open>\<^verbatim>\<open>for key in ("environment", "labels")\<close>, for one key.\<close>

definition key_as_dict :: "string \<Rightarrow> pydict \<Rightarrow> error + pydict" where
  "key_as_dict key service =
     (case map_of service key of
        None \<Rightarrow> Inr service
      | Some v \<Rightarrow>
          (case norm_as_dict v of
             Inl e \<Rightarrow> Inl e
           | Inr d \<Rightarrow> Inr (dict_set service key (PDict d))))"

text \<open>\<^verbatim>\<open>if "extends" in service\<close>: a string becomes \<^verbatim>\<open>{"service": extends}\<close>.\<close>

definition extends_to_dict :: "pydict \<Rightarrow> pydict" where
  "extends_to_dict service =
     (case map_of service ''extends'' of
        Some (PStr s) \<Rightarrow> dict_set service ''extends'' (PDict [(''service'', PStr s)])
      | _ \<Rightarrow> service)"

text \<open>
  The last block, under \<^verbatim>\<open>if "depends_on" in service\<close>. \<open>dict_comp_keys\<close> is
  \<^verbatim>\<open>{x: {} for x in deps}\<close>: a name that comes again keeps its first place; a key that is
  not a string is outside the model, a list or dict as key is a \<^verbatim>\<open>TypeError\<close>.
\<close>

fun dict_comp_keys :: "pyval list \<Rightarrow> error + pydict" where
  "dict_comp_keys [] = Inr []"
| "dict_comp_keys (x # xs) =
     (case x of
        PStr s \<Rightarrow>
          (case dict_comp_keys xs of
             Inl e \<Rightarrow> Inl e
           | Inr d \<Rightarrow> Inr ((s, PDict []) # filter (\<lambda>kv. fst kv \<noteq> s) d))
      | PList _ \<Rightarrow> Inl PyTypeError
      | PDict _ \<Rightarrow> Inl PyTypeError
      | PDeps _ \<Rightarrow> Inl PyTypeError
      | PStrs _ \<Rightarrow> Inl PyTypeError
      | _ \<Rightarrow> Inl OutOfModel)"

text \<open>
  \<^verbatim>\<open>deps\<close> before the loop over \<^verbatim>\<open>deps.items()\<close>: a string is \<^verbatim>\<open>{deps: {}}\<close>, a list is the
  comprehension, a dict is itself; any other value has no \<^verbatim>\<open>items\<close>.
\<close>

fun depends_on_dict :: "pyval \<Rightarrow> error + pydict" where
  "depends_on_dict (PStr s) = Inr [(s, PDict [])]"
| "depends_on_dict (PList xs) = dict_comp_keys xs"
| "depends_on_dict (PStrs ss) = dict_comp_keys (map PStr ss)"
| "depends_on_dict (PDeps es) = (if es = [] then Inr [] else Inl OutOfModel)"
| "depends_on_dict (PDict d) = Inr d"
| "depends_on_dict _ = Inl AttributeError"

text \<open>\<^verbatim>\<open>v.setdefault('condition', 'service_started')\<close> for every value of the dict.\<close>

definition setdefault :: "pydict \<Rightarrow> string \<Rightarrow> pyval \<Rightarrow> pydict" where
  "setdefault d k v = (if k \<in> set (keys d) then d else d @ [(k, v)])"

fun default_conditions :: "pydict \<Rightarrow> error + pydict" where
  "default_conditions [] = Inr []"
| "default_conditions ((k, v) # rest) =
     (case v of
        PDict vd \<Rightarrow>
          (case default_conditions rest of
             Inl e \<Rightarrow> Inl e
           | Inr r \<Rightarrow> Inr ((k, PDict (setdefault vd ''condition'' (PStr ''service_started''))) # r))
      | _ \<Rightarrow> Inl AttributeError)"

definition normalize_depends_on :: "pydict \<Rightarrow> error + pydict" where
  "normalize_depends_on service =
     (case map_of service ''depends_on'' of
        None \<Rightarrow> Inr service
      | Some deps \<Rightarrow>
          (case depends_on_dict deps of
             Inl e \<Rightarrow> Inl e
           | Inr d \<Rightarrow>
               (case default_conditions d of
                  Inl e \<Rightarrow> Inl e
                | Inr d' \<Rightarrow> Inr (dict_set service ''depends_on'' (PDict d')))))"

text \<open>
  The blocks before the last one, in the order of the source, and the whole function.
\<close>

definition normalize_other ::
  "(string \<Rightarrow> error + string list) \<Rightarrow> (pyval \<Rightarrow> string) \<Rightarrow> pydict \<Rightarrow> string \<Rightarrow> error + pydict" where
  "normalize_other shlex_split str_of service sub_dir =
     (case build_context sub_dir (build_to_dict service) of
        Inl e \<Rightarrow> Inl e
      | Inr s2 \<Rightarrow>
     (case build_additional_contexts str_of s2 of
        Inl e \<Rightarrow> Inl e
      | Inr s3 \<Rightarrow>
     (case split_command shlex_split ''command'' s3 of
        Inl e \<Rightarrow> Inl e
      | Inr s4 \<Rightarrow>
     (case split_command shlex_split ''entrypoint'' s4 of
        Inl e \<Rightarrow> Inl e
      | Inr s5 \<Rightarrow>
     (case security_opt
             (str_to_list ''volumes'' (str_to_list ''security_opt'' (str_to_list ''env_file'' s5))) of
        Inl e \<Rightarrow> Inl e
      | Inr s6 \<Rightarrow>
     (case key_as_dict ''environment'' s6 of
        Inl e \<Rightarrow> Inl e
      | Inr s7 \<Rightarrow>
     (case key_as_dict ''labels'' s7 of
        Inl e \<Rightarrow> Inl e
      | Inr s8 \<Rightarrow> Inr (extends_to_dict s8))))))))"

definition normalize_service ::
  "(string \<Rightarrow> error + string list) \<Rightarrow> (pyval \<Rightarrow> string) \<Rightarrow> pydict \<Rightarrow> string \<Rightarrow> error + pydict" where
  "normalize_service shlex_split str_of service sub_dir =
     (case normalize_other shlex_split str_of service sub_dir of
        Inl e \<Rightarrow> Inl e
      | Inr service1 \<Rightarrow> normalize_depends_on service1)"

text \<open>Names for the statements below.\<close>

definition started :: pyval where
  "started = PDict [(''condition'', PStr ''service_started'')]"

fun with_condition :: "pyval \<Rightarrow> pyval" where
  "with_condition (PDict vd) = PDict (setdefault vd ''condition'' (PStr ''service_started''))"
| "with_condition v = v"

fun is_dict :: "pyval \<Rightarrow> bool" where
  "is_dict (PDict _) = True"
| "is_dict _ = False"

text \<open>The keys that the blocks before the last one assign.\<close>

definition other_keys :: "string set" where
  "other_keys = {''build'', ''command'', ''entrypoint'', ''env_file'', ''security_opt'',
                 ''volumes'', ''environment'', ''labels'', ''extends''}"

subsection \<open>Extension resolver\<close>

text \<open>
  The \<^verbatim>\<open>else\<close> branch of \<^verbatim>\<open>resolve_extends\<close>, for a base in the same file:
  \<^verbatim>\<open>services.get(from_service_name, {}).copy()\<close>, then \<^verbatim>\<open>del from_service["_deps"]\<close>, then
  \<^verbatim>\<open>del from_service["extends"]\<close> inside \<^verbatim>\<open>try ... except KeyError: pass\<close>.
\<close>

definition same_file_base :: "pydict \<Rightarrow> pyval \<Rightarrow> error + pydict" where
  "same_file_base services from_service_name =
     (case (case from_service_name of
              PStr s \<Rightarrow> Inr (py_get services s (PDict []))
            | PList _ \<Rightarrow> Inl PyTypeError
            | PDict _ \<Rightarrow> Inl PyTypeError
            | PDeps _ \<Rightarrow> Inl PyTypeError
            | PStrs _ \<Rightarrow> Inl PyTypeError
            | _ \<Rightarrow> Inr (PDict [])) of
        Inl e \<Rightarrow> Inl e
      | Inr (PDict from_service) \<Rightarrow>
          (case dict_del from_service ''_deps'' of
             Inl e \<Rightarrow> Inl e
           | Inr from_service1 \<Rightarrow>
               (case dict_del from_service1 ''extends'' of
                  Inl e \<Rightarrow> Inr from_service1
                | Inr from_service2 \<Rightarrow> Inr from_service2))
      | Inr _ \<Rightarrow> Inl PyTypeError)"

text \<open>
  The body of the loop of \<^verbatim>\<open>resolve_extends\<close> for one name. The branch for a base in
  another file reads that file; what it computes (the base service, substituted and
  normalized) is the parameter \<open>load_base\<close>.
\<close>

definition resolve_extends_one ::
  "(pyval \<Rightarrow> pyval \<Rightarrow> (string \<rightharpoonup> pyval) \<Rightarrow> error + pydict) \<Rightarrow> pydict \<Rightarrow> string
     \<Rightarrow> (string \<rightharpoonup> pyval) \<Rightarrow> error + pydict" where
  "resolve_extends_one load_base services name environ =
     (case map_of services name of
        None \<Rightarrow> Inl (KeyError name)
      | Some (PDict service) \<Rightarrow>
          (case (case py_get service ''extends'' (PDict []) of
                   PStr s \<Rightarrow> Inr [(''service'', PStr s)]
                 | PDict e \<Rightarrow> Inr e
                 | _ \<Rightarrow> Inl PyTypeError) of
             Inl e \<Rightarrow> Inl e
           | Inr ext \<Rightarrow>
               (let from_service_name = py_get ext ''service'' PNone
                in if \<not> truthy from_service_name then Inr services
                   else
                     (let filename = py_get ext ''file'' PNone
                      in case (if truthy filename
                               then load_base filename from_service_name environ
                               else same_file_base services from_service_name) of
                           Inl e \<Rightarrow> Inl e
                         | Inr from_service \<Rightarrow>
                             (case rec_merge [] [from_service, service] of
                                Inl e \<Rightarrow> Inl e
                              | Inr new_service \<Rightarrow>
                                  Inr (dict_set services name (PDict new_service))))))
      | Some _ \<Rightarrow> Inl PyTypeError)"

fun resolve_extends ::
  "(pyval \<Rightarrow> pyval \<Rightarrow> (string \<rightharpoonup> pyval) \<Rightarrow> error + pydict) \<Rightarrow> pydict \<Rightarrow> string list
     \<Rightarrow> (string \<rightharpoonup> pyval) \<Rightarrow> error + pydict" where
  "resolve_extends load_base services [] environ = Inr services"
| "resolve_extends load_base services (name # service_names) environ =
     (case resolve_extends_one load_base services name environ of
        Inl e \<Rightarrow> Inl e
      | Inr services' \<Rightarrow> resolve_extends load_base services' service_names environ)"

subsection \<open>Container order\<close>

text \<open>
  The end of \<^verbatim>\<open>_parse_compose_file\<close>: the containers are keyed by name (a later
  container of the same name replaces an earlier one, at its place), sorted by
  \<^verbatim>\<open>len(c.get("_deps", []))\<close> with Python's stable sort, and given their pod by
  \<^verbatim>\<open>transform\<close>.
\<close>

fun py_len :: "pyval \<Rightarrow> error + nat" where
  "py_len (PStr s) = Inr (length s)"
| "py_len (PList xs) = Inr (length xs)"
| "py_len (PDict d) = Inr (length d)"
| "py_len (PDeps es) = Inr (length es)"
| "py_len (PStrs ss) = Inr (length ss)"
| "py_len _ = Inl PyTypeError"

definition deps_len :: "pydict \<Rightarrow> error + nat" where
  "deps_len c = py_len (py_get c ''_deps'' (PList []))"

fun container_by_name :: "pydict \<Rightarrow> pydict list \<Rightarrow> error + pydict" where
  "container_by_name acc [] = Inr acc"
| "container_by_name acc (c # cs) =
     (case map_of c ''name'' of
        None \<Rightarrow> Inl (KeyError ''name'')
      | Some (PStr n) \<Rightarrow> container_by_name (dict_set acc n (PDict c)) cs
      | Some (PList _) \<Rightarrow> Inl PyTypeError
      | Some (PDict _) \<Rightarrow> Inl PyTypeError
      | Some (PDeps _) \<Rightarrow> Inl PyTypeError
      | Some (PStrs _) \<Rightarrow> Inl PyTypeError
      | Some _ \<Rightarrow> Inl OutOfModel)"

definition sort_by_deps :: "pydict list \<Rightarrow> error + pydict list" where
  "sort_by_deps cs =
     (case sequence (map deps_len cs) of
        Inl e \<Rightarrow> Inl e
      | Inr ks \<Rightarrow> Inr (map snd (sort_key fst (zip ks cs))))"

definition transform :: "bool \<Rightarrow> string \<Rightarrow> pydict list \<Rightarrow> pydict list \<times> pydict list" where
  "transform in_pod_bool project_name given_containers =
     (let pod_name = (if \<not> in_pod_bool then PNone else PStr (''pod_'' @ project_name));
          pods = (if \<not> in_pod_bool then [] else [[(''name'', pod_name)]])
      in (pods, map (\<lambda>cnt. dict_set cnt ''pod'' pod_name) given_containers))"

definition order_containers ::
  "bool \<Rightarrow> string \<Rightarrow> pydict list \<Rightarrow> error + pydict list \<times> pydict list" where
  "order_containers in_pod_bool project_name given_containers =
     (case container_by_name [] given_containers of
        Inl e \<Rightarrow> Inl e
      | Inr by_name \<Rightarrow>
          (case sort_by_deps (map (\<lambda>kv. items (snd kv)) by_name) of
             Inl e \<Rightarrow> Inl e
           | Inr sorted_containers \<Rightarrow> Inr (transform in_pod_bool project_name sorted_containers)))"

definition deps_size :: "pydict \<Rightarrow> nat" where
  "deps_size c = (case deps_len c of Inr n \<Rightarrow> n | Inl _ \<Rightarrow> 0)"

text \<open>
  The dict literal \<^verbatim>\<open>{"name": name, "num": num, "service_name": service_name, **service_desc}\<close>
  of replica \<open>num\<close> of a service; \<open>decimal\<close> is the number as the f-string prints it. The
  keys the code sets afterwards (\<^verbatim>\<open>image\<close>, \<^verbatim>\<open>labels\<close>, \<^verbatim>\<open>ports\<close>, \<^verbatim>\<open>_service\<close>, \<^verbatim>\<open>_project\<close>)
  are not modelled; none of them is \<^verbatim>\<open>_deps\<close>.
\<close>

definition digit :: "nat \<Rightarrow> char" where
  "digit n = ''0123456789'' ! n"

function decimal :: "nat \<Rightarrow> string" where
  "decimal n = (if n < 10 then [digit n] else decimal (n div 10) @ [digit (n mod 10)])"
  by pat_completeness auto
termination decimal
  by (relation "measure id") auto

definition base_cnt :: "string \<Rightarrow> string \<Rightarrow> nat \<Rightarrow> pydict \<Rightarrow> pydict" where
  "base_cnt project_name service_name num service_desc =
     (let name0 = PStr (project_name @ ''_'' @ service_name @ ''_'' @ decimal num);
          name = (if num = 1 then py_get service_desc ''container_name'' name0 else name0)
      in foldl (\<lambda>cnt kv. dict_set cnt (fst kv) (snd kv))
           [(''name'', name), (''num'', PInt (int num)), (''service_name'', PStr service_name)]
           service_desc)"

text \<open>The three services of the end-to-end example, and the orders a dict can list them in.\<close>

definition db :: "string \<times> pyval" where
  "db = (''db'', PDict [(''image'', PStr ''postgres'')])"

definition web :: "string \<times> pyval" where
  "web = (''web'', PDict [(''image'', PStr ''app''),
            (''depends_on'', PDict [(''db'', PDict [(''condition'', PStr ''service_healthy'')])])])"

definition cache :: "string \<times> pyval" where
  "cache = (''cache'', PDict [(''image'', PStr ''redis'')])"

definition service_names :: "pydict list \<Rightarrow> pyval option list" where
  "service_names cs = map (\<lambda>c. map_of c ''service_name'') cs"

definition three_orders :: "pydict list" where
  "three_orders = [[db, web, cache], [db, cache, web], [web, db, cache], [web, cache, db],
                   [cache, db, web], [cache, web, db]]"

text \<open>
  Three services in a line: \<open>front\<close> depends on \<open>api\<close>, and \<open>api\<close> on \<open>db\<close>; \<open>front\<close>
  names one service and depends on two.
\<close>

definition api :: "string \<times> pyval" where
  "api = (''api'', PDict [(''image'', PStr ''srv''),
            (''depends_on'', PDict [(''db'', PDict [(''condition'', PStr ''service_started'')])])])"

definition front :: "string \<times> pyval" where
  "front = (''front'', PDict [(''image'', PStr ''ui''),
            (''depends_on'', PDict [(''api'', PDict [(''condition'', PStr ''service_started'')])])])"

definition line_orders :: "pydict list" where
  "line_orders = [[db, api, front], [db, front, api], [api, db, front], [api, front, db],
                  [front, db, api], [front, api, db]]"

subsection \<open>Vocabulary for the dependency closure\<close>

text \<open>
  The closure is studied on states of the \<^verbatim>\<open>services\<close> dict in which every service
  already has its \<^verbatim>\<open>_deps\<close> set, which is what the first loop of \<^verbatim>\<open>flat_deps\<close>
  establishes; the keys of a dict are distinct. \<open>dnames st y\<close> are the names of the
  edges in \<^verbatim>\<open>services[y]["_deps"]\<close>, and \<open>start_of\<close> is the start point after
  \<^verbatim>\<open>if not start_point: start_point = service_name\<close>.
\<close>

definition well_seeded :: "pydict \<Rightarrow> bool" where
  "well_seeded st \<longleftrightarrow>
     distinct (keys st) \<and> list_all (\<lambda>kv. \<exists>es. srv_deps (snd kv) = Inr es) st"


definition dnames :: "pydict \<Rightarrow> string \<Rightarrow> string set" where
  "dnames st y = (case get_deps st y of Inr es \<Rightarrow> fst ` set es | Inl e \<Rightarrow> {})"

definition start_of :: "string option \<Rightarrow> string \<Rightarrow> string" where
  "start_of sp x = (case sp of None \<Rightarrow> x | Some s \<Rightarrow> if s = [] then x else s)"




text \<open>
  What a run of \<^verbatim>\<open>rec_deps\<close> with start point \<open>s\<close> does to a state: the sets only
  grow, and no set gains an edge to \<open>s\<close> (\<open>grows\<close>); no service gains an edge to itself
  (\<open>nself\<close>). \<open>E_rel\<close> is the edge relation of a state, \<open>T_rel s\<close> the edges that
  \<^verbatim>\<open>rec_deps\<close> follows with start point \<open>s\<close> (the three \<^verbatim>\<open>continue\<close> tests fail), and
  \<open>closed\<close> says that every edge of the new state is a followed path and then an edge
  of the old one. \<open>walk s st n x\<close>: a followed path of length \<open>n\<close> leaves \<open>x\<close>.
  \<open>fails r\<close>: the call did not return a value (an exception, or the recursion depth
  is used up).
\<close>

definition grows :: "string \<Rightarrow> pydict \<Rightarrow> pydict \<Rightarrow> bool" where
  "grows s st st' \<longleftrightarrow>
     well_seeded st' \<and> keys st' = keys st \<and> (\<forall>y. dnames st y \<subseteq> dnames st' y)
     \<and> (\<forall>y. s \<in> dnames st' y \<longrightarrow> s \<in> dnames st y)"








section \<open>Properties of the merge engine\<close>

lemma merge_loop_keys:
  "merge_loop dn s es = Inr r \<Longrightarrow> map fst r = map fst es"
  by (induction es arbitrary: r) (auto split: if_splits option.splits sum.splits)

lemma merge_loop_frame:
  "merge_loop dn s es = Inr r \<Longrightarrow> map_of s k = None \<Longrightarrow> map_of r k = map_of es k"
  by (induction es arbitrary: r) (auto split: if_splits option.splits sum.splits)

lemma merge_loop_all_done:
  "set (map fst es) \<subseteq> set dn \<Longrightarrow> merge_loop dn s es = Inr es"
  by (induction es) auto

lemma add_missing_fresh:
  "distinct (map fst s) \<Longrightarrow> set (map fst s) \<inter> set (map fst t) = {} \<Longrightarrow>
   add_missing t dn s = (t @ s, dn @ map fst s)"
  by (induction t dn s rule: add_missing.induct) (auto simp: keys_def clone_def)

lemma add_missing_distinct:
  "add_missing t dn s = (t1, dn1) \<Longrightarrow> distinct (map fst t) \<Longrightarrow> distinct (map fst t1)"
  by (induction t dn s arbitrary: t1 dn1 rule: add_missing.induct)
     (auto simp: keys_def split: if_splits)

lemma rec_merge_one_distinct:
  assumes "rec_merge_one t s = Inr r" "distinct (map fst t)"
  shows "distinct (map fst r)"
proof -
  obtain t1 dn where a: "add_missing t [] s = (t1, dn)" by force
  with assms(1) have "merge_loop dn s t1 = Inr r" by simp
  then have "map fst r = map fst t1" by (rule merge_loop_keys)
  with add_missing_distinct[OF a assms(2)] show ?thesis by simp
qed

text \<open>Merging a dict into the empty dict copies it.\<close>

lemma rec_merge_one_empty_target:
  assumes "distinct (map fst m)"
  shows "rec_merge_one [] m = Inr m"
proof -
  have "add_missing [] [] m = (m, map fst m)"
    using add_missing_fresh[OF assms, of "[]" "[]"] by simp
  then show ?thesis by (simp add: merge_loop_all_done)
qed

subsection \<open>Volumes of two layers\<close>

lemma mount_targets_strs:
  "mount_targets (map PStr ys) = Inr (map split1 (filter (\<lambda>y. CHR '':'' \<in> set y) ys))"
  by (induction ys) auto

lemma drop_targets_strs:
  "drop_targets pts (map PStr xs)
   = Inr (map PStr (filter (\<lambda>x. \<not> (CHR '':'' \<in> set x \<and> split1 x \<in> set pts)) xs))"
  by (induction xs) (auto split: bool.splits)

lemma merge_volumes_strs:
  "merge_volumes (map PStr xs) (map PStr ys)
   = Inr (map PStr (filter (\<lambda>x. \<not> shadowed ys x) xs @ ys))"
  by (simp add: merge_volumes_def mount_targets_strs drop_targets_strs shadowed_def)

text \<open>
  Claim C2, as stated, at the input it names: the first layer gives the service
  \<^verbatim>\<open>volumes: ["/a:/x"]\<close>, the second \<^verbatim>\<open>volumes: ["/a:/y"]\<close>. The two entries have the
  same first segment and different second segments (\<^verbatim>\<open>/x\<close> and \<^verbatim>\<open>/y\<close>), the code compares
  second segments, so both entries are in the merged list, not only \<^verbatim>\<open>/a:/y\<close>.
\<close>

theorem volumes_layering_counterexample:
  "rec_merge_one [(''web'', PDict [(''volumes'', PList [PStr ''/a:/x''])])]
                 [(''web'', PDict [(''volumes'', PList [PStr ''/a:/y''])])]
   = Inr [(''web'', PDict [(''volumes'', PList [PStr ''/a:/x'', PStr ''/a:/y''])])]"
  by (simp add: keys_def isinstance_def merge_volumes_def split1_def)

text \<open>
  Claim C2, amended: when two layers define the same service with string entries \<open>xs\<close>
  and then \<open>ys\<close> under \<^verbatim>\<open>volumes\<close>, the merged list is the entries of \<open>xs\<close> that are not
  shadowed (no colon, or a second segment that no incoming entry with a colon has as
  its second segment), in their order, followed by all of \<open>ys\<close>.
\<close>

theorem volumes_layering:
  assumes "svc \<noteq> ''command''" "svc \<noteq> ''entrypoint''"
  shows "rec_merge_one [(svc, PDict [(''volumes'', PList (map PStr xs))])]
                       [(svc, PDict [(''volumes'', PList (map PStr ys))])]
         = Inr [(svc, PDict [(''volumes'',
                  PList (map PStr (filter (\<lambda>x. \<not> shadowed ys x) xs @ ys)))])]"
  using assms by (simp add: keys_def isinstance_def merge_volumes_strs)

theorem volumes_layering_witness:
  "rec_merge_one
     [(''web'', PDict [(''volumes'', PList [PStr ''/x:/a'', PStr ''/data:/d'', PStr ''anon''])])]
     [(''web'', PDict [(''volumes'', PList [PStr ''/y:/a:ro''])])]
   = Inr [(''web'', PDict [(''volumes'',
            PList [PStr ''/data:/d'', PStr ''anon'', PStr ''/y:/a:ro''])])]"
  using volumes_layering[of "''web''" "[''/x:/a'', ''/data:/d'', ''anon'']" "[''/y:/a:ro'']"]
  by (simp add: shadowed_def split1_def)

subsection \<open>Associativity\<close>

text \<open>
  Merging the result of a merge with a third document is merging the three documents;
  an exception of the inner merge is the exception of the whole. This holds for all
  documents.
\<close>

lemma merge_all_assoc_any:
  "(case merge_all [d1, d2] of Inl e \<Rightarrow> Inl e | Inr m \<Rightarrow> merge_all [m, d3])
   = merge_all [d1, d2, d3]"
proof (cases "rec_merge_one [] d1")
  case (Inl e)
  then show ?thesis by (simp add: merge_all_def rec_merge_def)
next
  case (Inr a)
  have da: "distinct (map fst a)" using rec_merge_one_distinct[OF Inr] by simp
  show ?thesis
  proof (cases "rec_merge_one a d2")
    case (Inl e)
    with Inr show ?thesis by (simp add: merge_all_def rec_merge_def)
  next
    case b: (Inr b)
    have "distinct (map fst b)" using rec_merge_one_distinct[OF b da] .
    then have "rec_merge_one [] b = Inr b" by (rule rec_merge_one_empty_target)
    with Inr b show ?thesis by (simp add: merge_all_def rec_merge_def)
  qed
qed

text \<open>
  Claim C4: for documents \<open>d1\<close>, \<open>d2\<close>, \<open>d3\<close> free of the keys \<^verbatim>\<open>command\<close>,
  \<^verbatim>\<open>entrypoint\<close> and \<^verbatim>\<open>volumes\<close> at every depth,
  \<^verbatim>\<open>merge_all(merge_all(d1, d2), d3)\<close> equals \<^verbatim>\<open>merge_all(d1, d2, d3)\<close>.
\<close>

theorem merge_all_assoc:
  assumes "special_free (PDict d1)" "special_free (PDict d2)" "special_free (PDict d3)"
  shows "(case merge_all [d1, d2] of Inl e \<Rightarrow> Inl e | Inr m \<Rightarrow> merge_all [m, d3])
         = merge_all [d1, d2, d3]"
  by (rule merge_all_assoc_any)

lemma merge_all_example:
  "merge_all
     [[(''services'', PDict [(''web'', PDict [(''image'', PStr ''a''),
                                              (''ports'', PList [PStr ''80''])])])],
      [(''services'', PDict [(''web'', PDict [(''ports'', PList [PStr ''81''])]),
                             (''db'', PDict [])])],
      [(''services'', PDict [(''web'', PDict [(''image'', PStr ''b'')])]),
       (''version'', PStr ''3'')]]
   = Inr [(''services'', PDict [(''web'', PDict [(''image'', PStr ''b''),
                                                 (''ports'', PList [PStr ''80'', PStr ''81''])]),
                                (''db'', PDict [])]),
          (''version'', PStr ''3'')]"
  by (simp add: merge_all_def rec_merge_def keys_def clone_def isinstance_def)

theorem merge_all_assoc_witness:
  "(case merge_all
       [[(''services'', PDict [(''web'', PDict [(''image'', PStr ''a''),
                                                (''ports'', PList [PStr ''80''])])])],
        [(''services'', PDict [(''web'', PDict [(''ports'', PList [PStr ''81''])]),
                               (''db'', PDict [])])]]
    of Inl e \<Rightarrow> Inl e
     | Inr m \<Rightarrow> merge_all [m, [(''services'', PDict [(''web'', PDict [(''image'', PStr ''b'')])]),
                              (''version'', PStr ''3'')]])
   = Inr [(''services'', PDict [(''web'', PDict [(''image'', PStr ''b''),
                                                 (''ports'', PList [PStr ''80'', PStr ''81''])]),
                                (''db'', PDict [])]),
          (''version'', PStr ''3'')]"
  using merge_all_assoc[of
      "[(''services'', PDict [(''web'', PDict [(''image'', PStr ''a''),
                                               (''ports'', PList [PStr ''80''])])])]"
      "[(''services'', PDict [(''web'', PDict [(''ports'', PList [PStr ''81''])]),
                              (''db'', PDict [])])]"
      "[(''services'', PDict [(''web'', PDict [(''image'', PStr ''b'')])]),
        (''version'', PStr ''3'')]"]
    merge_all_example
  by simp

subsection \<open>Frame\<close>

text \<open>
  Claim C10: when \<^verbatim>\<open>rec_merge_one(target, source)\<close> returns, a key of \<open>target\<close> that
  \<open>source\<close> does not have is still a key of the result, bound to the value it had.
\<close>

theorem rec_merge_one_frame:
  assumes "rec_merge_one target source = Inr result"
    and "key \<in> set (keys target)" and "key \<notin> set (keys source)"
  shows "key \<in> set (keys result) \<and> map_of result key = map_of target key"
proof -
  obtain t1 dn where a: "add_missing target [] source = (t1, dn)" by force
  with assms(1) have m: "merge_loop dn source t1 = Inr result" by simp
  from add_missing_shape[OF a] obtain new where n: "t1 = target @ new" by auto
  have s: "map_of source key = None"
    using assms(3) by (simp add: keys_def map_of_eq_None_iff)
  have "map_of result key = map_of t1 key" using merge_loop_frame[OF m s] .
  also have "\<dots> = map_of target key"
    using assms(2) n
    by (auto simp: keys_def map_add_def split: option.splits
             dest: map_of_eq_None_iff[THEN iffD1, rotated])
  finally have 1: "map_of result key = map_of target key" .
  have "map fst result = map fst t1" using merge_loop_keys[OF m] .
  then have "key \<in> set (keys result)" using assms(2) n by (simp add: keys_def)
  with 1 show ?thesis by simp
qed

theorem rec_merge_one_frame_witness:
  "rec_merge_one [(''image'', PStr ''a''), (''ports'', PList [PStr ''80''])]
                 [(''ports'', PList [PStr ''81'']), (''user'', PStr ''u'')]
     = Inr [(''image'', PStr ''a''), (''ports'', PList [PStr ''80'', PStr ''81'']),
            (''user'', PStr ''u'')]
   \<and> ''image'' \<in> set (keys [(''image'', PStr ''a''), (''ports'', PList [PStr ''80'', PStr ''81'']),
            (''user'', PStr ''u'')])
   \<and> map_of [(''image'', PStr ''a''), (''ports'', PList [PStr ''80'', PStr ''81'']),
            (''user'', PStr ''u'')] ''image'' = Some (PStr ''a'')"
proof -
  have r: "rec_merge_one [(''image'', PStr ''a''), (''ports'', PList [PStr ''80''])]
                 [(''ports'', PList [PStr ''81'']), (''user'', PStr ''u'')]
     = Inr [(''image'', PStr ''a''), (''ports'', PList [PStr ''80'', PStr ''81'']),
            (''user'', PStr ''u'')]"
    by (simp add: keys_def clone_def isinstance_def)
  from rec_merge_one_frame[OF r, of "''image''"] r show ?thesis
    by (simp add: keys_def)
qed

section \<open>Properties of the substitution engine\<close>

lemma not_ident_char_punct [simp]:
  "\<not> ident_char CHR ''}''" "\<not> ident_char CHR '':''" "\<not> ident_char CHR ''-''"
  "\<not> ident_char CHR ''?''" "\<not> ident_start CHR ''$''" "\<not> ident_start CHR ''{''"
  by (simp_all add: ident_char_def ident_start_def)

lemma takeWhile_name:
  "list_all ident_char n \<Longrightarrow> \<not> ident_char c \<Longrightarrow> takeWhile ident_char (n @ c # r) = n"
  by (induction n) auto

lemma dropWhile_name:
  "list_all ident_char n \<Longrightarrow> \<not> ident_char c \<Longrightarrow> dropWhile ident_char (n @ c # r) = c # r"
  by (induction n) auto

lemma closing_text:
  assumes "CHR ''}'' \<notin> set d"
  shows "closing (d @ CHR ''}'' # post) = Some (d, post)"
proof -
  have a: "\<And>x. x \<in> set d \<Longrightarrow> x \<noteq> CHR ''}''" using assms by auto
  have "takeWhile (\<lambda>c. c \<noteq> CHR ''}'') (d @ CHR ''}'' # post) = d"
    using takeWhile_append2[of d "\<lambda>c. c \<noteq> CHR ''}''" "CHR ''}'' # post"] a by simp
  moreover have "dropWhile (\<lambda>c. c \<noteq> CHR ''}'') (d @ CHR ''}'' # post) = CHR ''}'' # post"
    using dropWhile_append2[of d "\<lambda>c. c \<noteq> CHR ''}''" "CHR ''}'' # post"] a by simp
  ultimately show ?thesis by (simp add: closing_def)
qed

lemma match_braced_plain:
  assumes "valid_name n"
  shows "match_braced (n @ CHR ''}'' # post) = Some (no_groups\<lparr>g_braced := Some n\<rparr>, post)"
proof -
  from assms obtain c cs where n: "n = c # cs" "ident_start c" "list_all ident_char n"
    by (cases n) (auto simp: valid_name_def)
  show ?thesis
    using n takeWhile_name[OF n(3), of "CHR ''}''" post] dropWhile_name[OF n(3), of "CHR ''}''" post]
    by (simp add: match_braced_def Let_def)
qed

lemma match_braced_tail:
  assumes "valid_name n" "c = CHR ''-'' \<or> c = CHR ''?''"
  shows "match_braced (n @ c # r) = match_tail (no_groups\<lparr>g_braced := Some n\<rparr>) (c # r)"
    and "match_braced (n @ CHR '':'' # c # r)
         = match_tail (no_groups\<lparr>g_braced := Some n, g_empty := Some '':''\<rparr>) (c # r)"
proof -
  from assms obtain c0 cs where n: "n = c0 # cs" "ident_start c0" "list_all ident_char n"
    by (cases n) (auto simp: valid_name_def)
  have nc: "\<not> ident_char c" using assms(2) by auto
  show "match_braced (n @ c # r) = match_tail (no_groups\<lparr>g_braced := Some n\<rparr>) (c # r)"
    using n assms(2) takeWhile_name[OF n(3) nc, of r] dropWhile_name[OF n(3) nc, of r]
    by (auto simp add: match_braced_def Let_def)
  show "match_braced (n @ CHR '':'' # c # r)
         = match_tail (no_groups\<lparr>g_braced := Some n, g_empty := Some '':''\<rparr>) (c # r)"
    using n takeWhile_name[OF n(3), of "CHR '':''" "c # r"] dropWhile_name[OF n(3), of "CHR '':''" "c # r"]
    by (simp add: match_braced_def Let_def)
qed

lemma var_re_match_braced: "var_re_match (CHR ''$'' # CHR ''{'' # s) = match_braced s"
  by (simp add: var_re_match_def)

lemma var_re_match_default:
  assumes "valid_name n" "CHR ''}'' \<notin> set d"
  shows "var_re_match (''${'' @ n @ '':-'' @ d @ ''}'' @ post)
         = Some (no_groups\<lparr>g_braced := Some n, g_empty := Some '':'', g_default := Some d\<rparr>, post)"
    and "var_re_match (''${'' @ n @ ''-'' @ d @ ''}'' @ post)
         = Some (no_groups\<lparr>g_braced := Some n, g_default := Some d\<rparr>, post)"
  using assms
  by (simp_all add: var_re_match_braced match_braced_tail match_tail_def closing_text)

lemma var_re_match_err:
  assumes "valid_name n" "CHR ''}'' \<notin> set msg"
  shows "var_re_match (''${'' @ n @ '':?'' @ msg @ ''}'' @ post)
         = Some (no_groups\<lparr>g_braced := Some n, g_empty := Some '':'', g_err := Some msg\<rparr>, post)"
    and "var_re_match (''${'' @ n @ ''?'' @ msg @ ''}'' @ post)
         = Some (no_groups\<lparr>g_braced := Some n, g_err := Some msg\<rparr>, post)"
  using assms
  by (simp_all add: var_re_match_braced match_braced_tail match_tail_def closing_text)

lemma var_re_match_no_dollar: "c \<noteq> CHR ''$'' \<Longrightarrow> var_re_match (c # cs) = None"
  by (simp add: var_re_match_def split: list.splits)

lemma var_re_sub_literal_prefix:
  "CHR ''$'' \<notin> set pre \<Longrightarrow>
   var_re_sub f sd (pre @ s) = (case var_re_sub f sd s of Inl e \<Rightarrow> Inl e | Inr t \<Rightarrow> Inr (pre @ t))"
  by (induction pre) (auto simp: var_re_match_no_dollar split: sum.splits)

lemma var_re_sub_literal: "CHR ''$'' \<notin> set s \<Longrightarrow> var_re_sub f sd s = Inr s"
  using var_re_sub_literal_prefix[of s f sd "[]"] by simp

lemma var_re_sub_at_match:
  "var_re_match s = Some (m, rest) \<Longrightarrow>
   var_re_sub f sd s = (case convert f sd m of Inl e \<Rightarrow> Inl e
      | Inr r \<Rightarrow> (case var_re_sub f sd rest of Inl e \<Rightarrow> Inl e | Inr t \<Rightarrow> Inr (r @ t)))"
  by (cases s) (auto simp: var_re_match_def)

text \<open>
  Claim C3: when \<open>A\<close> is bound to the empty string, \<^verbatim>\<open>${A:-x}\<close> yields \<^verbatim>\<open>x\<close> and \<^verbatim>\<open>${A-x}\<close>
  yields the empty string; when \<open>A\<close> is unbound both yield \<^verbatim>\<open>x\<close>. The default text \<open>d\<close> is
  any text without a closing brace, and it is the result as it stands, whatever
  \<^verbatim>\<open>$\<close> forms it contains.
\<close>

theorem default_forms:
  assumes "valid_name n" and "CHR ''}'' \<notin> set d"
  shows "(subs_dict n = Some (PStr '''') \<longrightarrow>
            rec_subs str_of (PStr (''${'' @ n @ '':-'' @ d @ ''}'')) subs_dict = Inr (PStr d)
          \<and> rec_subs str_of (PStr (''${'' @ n @ ''-'' @ d @ ''}'')) subs_dict = Inr (PStr ''''))
       \<and> (subs_dict n = None \<longrightarrow>
            rec_subs str_of (PStr (''${'' @ n @ '':-'' @ d @ ''}'')) subs_dict = Inr (PStr d)
          \<and> rec_subs str_of (PStr (''${'' @ n @ ''-'' @ d @ ''}'')) subs_dict = Inr (PStr d))"
proof -
  have vn: "n \<noteq> []" using assms(1) by (simp add: valid_name_def)
  have m1: "var_re_match (''${'' @ n @ '':-'' @ d @ ''}'')
         = Some (no_groups\<lparr>g_braced := Some n, g_empty := Some '':'', g_default := Some d\<rparr>, [])"
    using var_re_match_default(1)[OF assms, of "[]"] by simp
  have m2: "var_re_match (''${'' @ n @ ''-'' @ d @ ''}'')
         = Some (no_groups\<lparr>g_braced := Some n, g_default := Some d\<rparr>, [])"
    using var_re_match_default(2)[OF assms, of "[]"] by simp
  show ?thesis
    using vn m1 m2
    by (auto simp: convert_def no_groups_def py_or_def py_str_def Let_def)
qed

theorem default_forms_witness:
  "rec_subs (\<lambda>v. ''?'') (PStr ''${A:-x}'') [''A'' \<mapsto> PStr ''''] = Inr (PStr ''x'')
   \<and> rec_subs (\<lambda>v. ''?'') (PStr ''${A-x}'') [''A'' \<mapsto> PStr ''''] = Inr (PStr '''')
   \<and> rec_subs (\<lambda>v. ''?'') (PStr ''${A:-$B}'') [''B'' \<mapsto> PStr ''b''] = Inr (PStr ''$B'')
   \<and> rec_subs (\<lambda>v. ''?'') (PStr ''${A-$B}'') [''B'' \<mapsto> PStr ''b''] = Inr (PStr ''$B'')"
  using default_forms[of "''A''" "''x''" "[''A'' \<mapsto> PStr '''']" "\<lambda>v. ''?''"]
        default_forms[of "''A''" "''$B''" "[''B'' \<mapsto> PStr ''b'']" "\<lambda>v. ''?''"]
  by (simp add: valid_name_def ident_start_def ident_char_def)

text \<open>
  The result of \<^verbatim>\<open>var_re.sub\<close> is an exception exactly when \<^verbatim>\<open>convert\<close> raises at one of
  the matches, and it is the first one raised, from left to right.
\<close>

lemma var_re_sub_first_error:
  "scan s = ts @ t # us \<Longrightarrow> \<forall>t' \<in> set ts. raised f sd t' = None \<Longrightarrow> raised f sd t = Some e \<Longrightarrow>
   var_re_sub f sd s = Inl e"
proof (induction s arbitrary: ts rule: scan.induct)
  case 1
  then show ?case by simp
next
  case (2 c cs)
  show ?case
  proof (cases ts)
    case Nil
    with "2.prems" have "t = c # cs" by simp
    with "2.prems"(3) show ?thesis
      by (auto simp: raised_def split: option.splits sum.splits)
  next
    case (Cons t0 ts')
    with "2.prems" have t0: "t0 = c # cs" and r0: "raised f sd (c # cs) = None" by auto
    show ?thesis
    proof (cases "var_re_match (c # cs)")
      case None
      with "2.prems"(1) Cons have "scan cs = ts' @ t # us" by simp
      from "2.IH"(1)[OF None this _ "2.prems"(3)] "2.prems"(2) Cons
      have "var_re_sub f sd cs = Inl e" by simp
      with None show ?thesis by simp
    next
      case (Some a)
      obtain m rest where a: "a = (m, rest)" by (cases a)
      with Some "2.prems"(1) Cons have "scan rest = ts' @ t # us" by simp
      from "2.IH"(2)[OF Some a[symmetric] this _ "2.prems"(3)] "2.prems"(2) Cons
      have v: "var_re_sub f sd rest = Inl e" by simp
      from r0 Some a obtain r where "convert f sd m = Inr r"
        by (auto simp: raised_def split: sum.splits)
      with Some a v show ?thesis by simp
    qed
  qed
qed

lemma var_re_sub_error_raised:
  "var_re_sub f sd s = Inl e \<Longrightarrow> \<exists>t \<in> set (scan s). raised f sd t = Some e"
proof (induction s rule: scan.induct)
  case 1
  then show ?case by simp
next
  case (2 c cs)
  show ?case
  proof (cases "var_re_match (c # cs)")
    case None
    with "2.prems" have "var_re_sub f sd cs = Inl e" by (simp split: sum.splits)
    from "2.IH"(1)[OF None this] None show ?thesis by auto
  next
    case (Some a)
    obtain m rest where a: "a = (m, rest)" by (cases a)
    show ?thesis
    proof (cases "convert f sd m")
      case (Inl e0)
      with "2.prems" Some a have "e0 = e" by simp
      with Inl Some a have "raised f sd (c # cs) = Some e" by (simp add: raised_def)
      then show ?thesis by auto
    next
      case (Inr r)
      with "2.prems" Some a have "var_re_sub f sd rest = Inl e" by (simp split: sum.splits)
      from "2.IH"(2)[OF Some a[symmetric] this] Some a show ?thesis by auto
    qed
  qed
qed

lemma raised_required:
  assumes "valid_name n" "CHR ''}'' \<notin> set msg" "colon = '':'' \<or> colon = ''''"
  shows "raised f sd (''${'' @ n @ colon @ ''?'' @ msg @ ''}'' @ post)
         = (if unset sd colon n then Some (RuntimeError msg) else None)"
proof -
  have vn: "n \<noteq> []" using assms(1) by (simp add: valid_name_def)
  from assms(3) show ?thesis
  proof
    assume c: "colon = '':''"
    have "var_re_match (''${'' @ n @ colon @ ''?'' @ msg @ ''}'' @ post)
         = Some (no_groups\<lparr>g_braced := Some n, g_empty := Some '':'', g_err := Some msg\<rparr>, post)"
      using var_re_match_err(1)[OF assms(1,2), of post] c by simp
    then show ?thesis using vn c
      by (auto simp: raised_def unset_def convert_def no_groups_def py_or_def Let_def
               split: option.splits)
  next
    assume c: "colon = ''''"
    have "var_re_match (''${'' @ n @ colon @ ''?'' @ msg @ ''}'' @ post)
         = Some (no_groups\<lparr>g_braced := Some n, g_err := Some msg\<rparr>, post)"
      using var_re_match_err(2)[OF assms(1,2), of post] c by simp
    then show ?thesis using vn c
      by (auto simp: raised_def unset_def convert_def no_groups_def py_or_def Let_def
               split: option.splits)
  qed
qed

text \<open>In a comprehension the first exception is the result.\<close>

lemma sequence_first_error:
  "\<forall>y \<in> set ys. \<exists>r. g y = Inr r \<Longrightarrow> g x = Inl e \<Longrightarrow> sequence (map g (ys @ x # zs)) = Inl e"
  by (induction ys) (auto split: sum.splits)

lemma sequence_error_member:
  "sequence (map g xs) = Inl e \<Longrightarrow> \<exists>x \<in> set xs. g x = Inl e"
  by (induction xs) (auto split: sum.splits)

lemma scan_head: "scan s = scan t \<Longrightarrow> s = t"
  by (cases s; cases t) auto

lemma var_re_sub_skip:
  "scan s = ts @ scan t \<Longrightarrow> \<forall>t' \<in> set ts. raised f sd t' = None \<Longrightarrow>
   (var_re_sub f sd s = Inl e \<longleftrightarrow> var_re_sub f sd t = Inl e)"
proof (induction s arbitrary: ts rule: scan.induct)
  case 1
  then have "scan t = scan []" by simp
  then have "t = []" by (rule scan_head)
  then show ?case by simp
next
  case (2 c cs)
  show ?case
  proof (cases ts)
    case Nil
    with "2.prems"(1) have "c # cs = t" by (auto intro: scan_head)
    then show ?thesis by simp
  next
    case (Cons t0 ts')
    with "2.prems" have r0: "raised f sd (c # cs) = None"
      and r': "\<forall>t' \<in> set ts'. raised f sd t' = None" by auto
    show ?thesis
    proof (cases "var_re_match (c # cs)")
      case None
      with "2.prems"(1) Cons have "scan cs = ts' @ scan t" by simp
      note ih = "2.IH"(1)[OF None this r']
      have "var_re_sub f sd (c # cs) = Inl e \<longleftrightarrow> var_re_sub f sd cs = Inl e"
        using None by (cases "var_re_sub f sd cs") auto
      with ih show ?thesis by simp
    next
      case (Some a)
      obtain m rest where a: "a = (m, rest)" by (cases a)
      with Some "2.prems"(1) Cons have "scan rest = ts' @ scan t" by simp
      note ih = "2.IH"(2)[OF Some a[symmetric] this r']
      from r0 Some a obtain r where "convert f sd m = Inr r"
        by (auto simp: raised_def split: sum.splits)
      with Some a have "var_re_sub f sd (c # cs) = Inl e \<longleftrightarrow> var_re_sub f sd rest = Inl e"
        by (cases "var_re_sub f sd rest") auto
      with ih show ?thesis by simp
    qed
  qed
qed

lemma var_re_sub_required:
  assumes "valid_name n" "CHR ''}'' \<notin> set msg" "colon = '':'' \<or> colon = ''''"
  shows "var_re_sub f sd (''${'' @ n @ colon @ ''?'' @ msg @ ''}'' @ post) = Inl e
         \<longleftrightarrow> (if unset sd colon n then e = RuntimeError msg else var_re_sub f sd post = Inl e)"
proof -
  let ?t = "''${'' @ n @ colon @ ''?'' @ msg @ ''}'' @ post"
  from assms(3) obtain m where m: "var_re_match ?t = Some (m, post)"
    using var_re_match_err[OF assms(1,2), of post] by auto
  have r: "raised f sd ?t = (if unset sd colon n then Some (RuntimeError msg) else None)"
    by (rule raised_required[OF assms])
  show ?thesis
  proof (cases "unset sd colon n")
    case True
    with r m have "convert f sd m = Inl (RuntimeError msg)"
      by (auto simp: raised_def split: sum.splits)
    with True show ?thesis unfolding var_re_sub_at_match[OF m] by auto
  next
    case False
    with r m obtain v where "convert f sd m = Inr v"
      by (auto simp: raised_def split: sum.splits)
    with False show ?thesis unfolding var_re_sub_at_match[OF m] by (simp split: sum.splits)
  qed
qed

text \<open>
  Claim C9, as stated, at an environment where \<open>A\<close> is present and bound to \<^verbatim>\<open>None\<close>, as
  \<^verbatim>\<open>norm_as_dict\<close> binds a name given without a value: \<^verbatim>\<open>${A?gone}\<close> raises, although
  \<open>A\<close> is not absent.
\<close>

theorem required_counterexample:
  "rec_subs (\<lambda>v. ''?'') (PStr ''${A?gone}'') [''A'' \<mapsto> PNone] = Inl (RuntimeError ''gone'')"
  by (simp add: var_re_match_def match_braced_def match_tail_def closing_def convert_def
      no_groups_def py_or_def ident_start_def ident_char_def Let_def)

text \<open>
  Claim C9, with the lookup as \<^verbatim>\<open>convert\<close> does it. In a string \<open>s\<close> where the scan arrives
  at the form \<^verbatim>\<open>${NAME:?msg}\<close> or \<^verbatim>\<open>${NAME?msg}\<close> and no match before it raises, the
  substitution raises the error carrying \<open>msg\<close> when \<open>NAME\<close> is absent or bound to
  \<^verbatim>\<open>None\<close> or, for the form with the colon, bound to the empty string; otherwise it raises
  only what the text after the form raises. The error ends the substitution of the
  whole document: in a list, and in a dict under its scoped environment, the first
  error of an element is the result.
\<close>

theorem required_forms:
  assumes "valid_name n" and "CHR ''}'' \<notin> set msg" and "colon = '':'' \<or> colon = ''''"
    and "scan s = ts @ scan (''${'' @ n @ colon @ ''?'' @ msg @ ''}'' @ post)"
    and "\<forall>t \<in> set ts. raised str_of subs_dict t = None"
  shows "(rec_subs str_of (PStr s) subs_dict = Inl e
          \<longleftrightarrow> (if unset subs_dict colon n then e = RuntimeError msg
               else var_re_sub str_of subs_dict post = Inl e))
       \<and> ((\<forall>y \<in> set ys. \<exists>r. rec_subs str_of y sd = Inr r) \<and> rec_subs str_of x sd = Inl e'
            \<longrightarrow> rec_subs str_of (PList (ys @ x # zs)) sd = Inl e')
       \<and> (service_env str_of (kys @ (k, x) # kzs) sd = Inr sd'
            \<and> (\<forall>y \<in> set kys. \<exists>r. rec_subs str_of (snd y) sd' = Inr r)
            \<and> rec_subs str_of x sd' = Inl e'
            \<longrightarrow> rec_subs str_of (PDict (kys @ (k, x) # kzs)) sd = Inl e')"
proof (intro conjI impI)
  have "rec_subs str_of (PStr s) subs_dict = Inl e \<longleftrightarrow> var_re_sub str_of subs_dict s = Inl e"
    by (simp split: sum.splits)
  also have "\<dots> \<longleftrightarrow> var_re_sub str_of subs_dict
                        (''${'' @ n @ colon @ ''?'' @ msg @ ''}'' @ post) = Inl e"
    by (rule var_re_sub_skip[OF assms(4,5)])
  also have "\<dots> \<longleftrightarrow> (if unset subs_dict colon n then e = RuntimeError msg
               else var_re_sub str_of subs_dict post = Inl e)"
    by (rule var_re_sub_required[OF assms(1,2,3)])
  finally show "rec_subs str_of (PStr s) subs_dict = Inl e
          \<longleftrightarrow> (if unset subs_dict colon n then e = RuntimeError msg
               else var_re_sub str_of subs_dict post = Inl e)" .
next
  assume a: "(\<forall>y \<in> set ys. \<exists>r. rec_subs str_of y sd = Inr r) \<and> rec_subs str_of x sd = Inl e'"
  then have "sequence (map (\<lambda>i. rec_subs str_of i sd) (ys @ x # zs)) = Inl e'"
    by (intro sequence_first_error) auto
  then show "rec_subs str_of (PList (ys @ x # zs)) sd = Inl e'" by simp
next
  assume a: "service_env str_of (kys @ (k, x) # kzs) sd = Inr sd'
            \<and> (\<forall>y \<in> set kys. \<exists>r. rec_subs str_of (snd y) sd' = Inr r)
            \<and> rec_subs str_of x sd' = Inl e'"
  let ?g = "\<lambda>kv. case rec_subs str_of (snd kv) sd' of Inl e \<Rightarrow> Inl e | Inr v \<Rightarrow> Inr (fst kv, v)"
  have "\<forall>y \<in> set kys. \<exists>r. ?g y = Inr r" using a by (auto split: sum.splits)
  moreover have "?g (k, x) = Inl e'" using a by simp
  ultimately have "sequence (map ?g (kys @ (k, x) # kzs)) = Inl e'"
    by (rule sequence_first_error)
  with a show "rec_subs str_of (PDict (kys @ (k, x) # kzs)) sd = Inl e'"
    by (simp del: service_env.simps)
qed

text \<open>
  The theorem at \<^verbatim>\<open>$X ${A?gone}!\<close> with \<open>X\<close> bound to \<^verbatim>\<open>1\<close> and \<open>A\<close> bound to \<^verbatim>\<open>None\<close>,
  alone, in a list, and in a service.
\<close>

theorem required_forms_witness:
  "rec_subs (\<lambda>v. ''?'') (PStr ''$X ${A?gone}!'') [''X'' \<mapsto> PStr ''1'', ''A'' \<mapsto> PNone]
     = Inl (RuntimeError ''gone'')
   \<and> rec_subs (\<lambda>v. ''?'') (PList [PStr ''run'', PStr ''$X ${A?gone}!''])
        [''X'' \<mapsto> PStr ''1'', ''A'' \<mapsto> PNone]
     = Inl (RuntimeError ''gone'')
   \<and> rec_subs (\<lambda>v. ''?'')
        (PDict [(''image'', PStr ''app''),
                (''command'', PList [PStr ''run'', PStr ''$X ${A?gone}!''])])
        [''X'' \<mapsto> PStr ''1'', ''A'' \<mapsto> PNone]
     = Inl (RuntimeError ''gone'')"
proof -
  let ?f = "\<lambda>v::pyval. ''?''"
  let ?sd = "[''X'' \<mapsto> PStr ''1'', ''A'' \<mapsto> PNone]"
  let ?s = "''$X ${A?gone}!''"
  let ?l = "PList [PStr ''run'', PStr ?s]"
  have vn: "valid_name ''A''" by (simp add: valid_name_def ident_start_def ident_char_def)
  have nb: "CHR ''}'' \<notin> set ''gone''" by simp
  have sc: "scan ?s = [?s, '' ${A?gone}!''] @ scan (''${'' @ ''A'' @ [] @ ''?'' @ ''gone'' @ ''}'' @ ''!'')"
    by (simp add: var_re_match_def ident_start_def ident_char_def)
  have rs: "\<forall>t \<in> set [?s, '' ${A?gone}!'']. raised ?f ?sd t = None"
    by (simp add: raised_def var_re_match_def ident_start_def ident_char_def convert_def
        no_groups_def py_or_def py_str_def Let_def)
  have un: "unset ?sd [] ''A''" by (simp add: unset_def)
  have col: "([]::string) = '':'' \<or> ([]::string) = []" by simp
  note t1 = required_forms[OF vn nb col sc rs, where e = "RuntimeError ''gone''"
      and e' = "RuntimeError ''gone''" and sd = ?sd
      and ys = "[PStr ''run'']" and x = "PStr ?s" and zs = "[]"]
  note t2 = required_forms[OF vn nb col sc rs, where e' = "RuntimeError ''gone''"
      and sd = ?sd and sd' = ?sd and x = ?l
      and kys = "[(''image'', PStr ''app'')]" and k = "''command''" and kzs = "[]"]
  have s1: "rec_subs ?f (PStr ?s) ?sd = Inl (RuntimeError ''gone'')"
    using t1[THEN conjunct1] un by (simp only: if_True simp_thms)
  have r0: "\<forall>y \<in> set [PStr ''run'']. \<exists>r. rec_subs ?f y ?sd = Inr r"
    by (simp add: var_re_match_def)
  have s2: "rec_subs ?f (PList ([PStr ''run''] @ PStr ?s # [])) ?sd = Inl (RuntimeError ''gone'')"
    using t1[THEN conjunct2, THEN conjunct1] r0 s1 by (rule mp[OF _ conjI])
  have e0: "service_env ?f ([(''image'', PStr ''app'')] @ (''command'', ?l) # []) ?sd = Inr ?sd"
    by simp
  have r1: "\<forall>y \<in> set [(''image'', PStr ''app'')]. \<exists>r. rec_subs ?f (snd y) ?sd = Inr r"
    by (simp add: var_re_match_def)
  have s2': "rec_subs ?f ?l ?sd = Inl (RuntimeError ''gone'')" using s2 by (simp only: append.simps)
  have s3: "rec_subs ?f (PDict ([(''image'', PStr ''app'')] @ (''command'', ?l) # [])) ?sd
            = Inl (RuntimeError ''gone'')"
    using t2[THEN conjunct2, THEN conjunct2] e0 r1 s2' by (rule mp[OF _ conjI[OF _ conjI]])
  have s3': "rec_subs ?f (PDict [(''image'', PStr ''app''), (''command'', ?l)]) ?sd
            = Inl (RuntimeError ''gone'')" using s3 by (simp only: append.simps)
  from s1 s2' s3' show ?thesis by (intro conjI)
qed

section \<open>Properties of normalization, extension and ordering\<close>

lemma default_conditions_empty:
  "default_conditions (map (\<lambda>x. (x, PDict [])) xs) = Inr (map (\<lambda>x. (x, started)) xs)"
  by (induction xs) (auto simp: setdefault_def keys_def started_def)

lemma default_conditions_dicts:
  "list_all (\<lambda>kv. is_dict (snd kv)) d \<Longrightarrow>
   default_conditions d = Inr (map (\<lambda>kv. (fst kv, with_condition (snd kv))) d)"
proof (induction d)
  case Nil
  then show ?case by simp
next
  case (Cons kv d)
  obtain k v where kv: "kv = (k, v)" by (cases kv)
  with Cons.prems obtain vd where v: "v = PDict vd" by (cases v) auto
  from Cons kv v show ?case by simp
qed

lemma dict_set_lookup: "map_of (dict_set d k v) k' = (if k' = k then Some v else map_of d k')"
  by (induction d) auto

text \<open>
  The keys of \<^verbatim>\<open>{x: {} for x in deps}\<close> are the names of the list, each at the place where it
  comes first.
\<close>

lemma remdups_snoc: "remdups (ys @ [x]) = filter (\<lambda>y. y \<noteq> x) (remdups ys) @ [x]"
  by (induction ys) auto

lemma first_occurrences_Cons:
  "rev (remdups (rev (x # xs))) = x # filter (\<lambda>y. y \<noteq> x) (rev (remdups (rev xs)))"
  by (simp add: remdups_snoc rev_filter)

lemma dict_comp_keys_strs:
  "dict_comp_keys (map PStr xs) = Inr (map (\<lambda>x. (x, PDict [])) (rev (remdups (rev xs))))"
proof (induction xs)
  case Nil
  then show ?case by simp
next
  case (Cons x xs)
  have "filter (\<lambda>kv. fst kv \<noteq> x) (map (\<lambda>x. (x, PDict [])) (rev (remdups (rev xs))))
        = map (\<lambda>x. (x, PDict [])) (filter (\<lambda>y. y \<noteq> x) (rev (remdups (rev xs))))"
    by (simp add: filter_map comp_def)
  with Cons show ?case unfolding first_occurrences_Cons by simp
qed

lemma default_conditions_not_dicts:
  "\<not> list_all (\<lambda>kv. is_dict (snd kv)) d \<Longrightarrow> default_conditions d = Inl AttributeError"
proof (induction d)
  case Nil
  then show ?case by simp
next
  case (Cons kv d)
  obtain k v where kv: "kv = (k, v)" by (cases kv)
  show ?case
  proof (cases v)
    case (PDict vd)
    with Cons kv show ?thesis by simp
  qed (simp_all add: kv)
qed

text \<open>The blocks before the last one assign only the keys they name.\<close>

lemma build_to_dict_frame: "k \<noteq> ''build'' \<Longrightarrow> map_of (build_to_dict s) k = map_of s k"
  by (auto simp: build_to_dict_def dict_set_lookup split: option.splits pyval.splits)

lemma build_context_frame:
  "build_context sub_dir s = Inr s' \<Longrightarrow> k \<noteq> ''build'' \<Longrightarrow> map_of s' k = map_of s k"
  by (auto simp: build_context_def dict_set_lookup split: if_splits option.splits pyval.splits)

lemma build_additional_contexts_frame:
  "build_additional_contexts f s = Inr s' \<Longrightarrow> k \<noteq> ''build'' \<Longrightarrow> map_of s' k = map_of s k"
  by (auto simp: build_additional_contexts_def dict_set_lookup
           split: if_splits option.splits pyval.splits)

lemma split_command_frame:
  "split_command sp key s = Inr s' \<Longrightarrow> k \<noteq> key \<Longrightarrow> map_of s' k = map_of s k"
  by (auto simp: split_command_def dict_set_lookup split: option.splits pyval.splits sum.splits)

lemma str_to_list_frame: "k \<noteq> key \<Longrightarrow> map_of (str_to_list key s) k = map_of s k"
  by (auto simp: str_to_list_def dict_set_lookup split: option.splits pyval.splits)

lemma security_opt_frame:
  "security_opt s = Inr s' \<Longrightarrow> k \<noteq> ''security_opt'' \<Longrightarrow> map_of s' k = map_of s k"
  by (auto simp: security_opt_def dict_set_lookup split: if_splits option.splits pyval.splits)

lemma key_as_dict_frame:
  "key_as_dict key s = Inr s' \<Longrightarrow> k \<noteq> key \<Longrightarrow> map_of s' k = map_of s k"
  by (auto simp: key_as_dict_def dict_set_lookup split: option.splits sum.splits)

lemma extends_to_dict_frame: "k \<noteq> ''extends'' \<Longrightarrow> map_of (extends_to_dict s) k = map_of s k"
  by (auto simp: extends_to_dict_def dict_set_lookup split: option.splits pyval.splits)

lemma normalize_other_absent:
  assumes "\<forall>k \<in> other_keys. map_of service k = None"
  shows "normalize_other sp f service sub_dir = Inr service"
proof -
  from assms have k: "map_of service ''build'' = None" "map_of service ''command'' = None"
    "map_of service ''entrypoint'' = None" "map_of service ''env_file'' = None"
    "map_of service ''security_opt'' = None" "map_of service ''volumes'' = None"
    "map_of service ''environment'' = None" "map_of service ''labels'' = None"
    "map_of service ''extends'' = None"
    by (simp_all add: other_keys_def)
  show ?thesis
    by (simp add: k normalize_other_def build_to_dict_def build_context_def
        build_additional_contexts_def split_command_def str_to_list_def security_opt_def
        key_as_dict_def extends_to_dict_def)
qed

lemma normalize_other_frame:
  assumes "normalize_other sp f service sub_dir = Inr s1" and "k \<notin> other_keys"
  shows "map_of s1 k = map_of service k"
proof -
  from assms(1) obtain s2 s3 s4 s5 s6 s7 s8 where
    b2: "build_context sub_dir (build_to_dict service) = Inr s2"
    and b3: "build_additional_contexts f s2 = Inr s3"
    and b4: "split_command sp ''command'' s3 = Inr s4"
    and b5: "split_command sp ''entrypoint'' s4 = Inr s5"
    and b6: "security_opt (str_to_list ''volumes'' (str_to_list ''security_opt''
                (str_to_list ''env_file'' s5))) = Inr s6"
    and b7: "key_as_dict ''environment'' s6 = Inr s7"
    and b8: "key_as_dict ''labels'' s7 = Inr s8"
    and b9: "s1 = extends_to_dict s8"
    by (auto simp: normalize_other_def split: sum.splits)
  from assms(2) have k: "k \<noteq> ''build''" "k \<noteq> ''command''" "k \<noteq> ''entrypoint''"
    "k \<noteq> ''env_file''" "k \<noteq> ''security_opt''" "k \<noteq> ''volumes''" "k \<noteq> ''environment''"
    "k \<noteq> ''labels''" "k \<noteq> ''extends''"
    by (auto simp: other_keys_def)
  have "map_of s1 k = map_of s8 k" unfolding b9 by (rule extends_to_dict_frame[OF k(9)])
  also have "\<dots> = map_of s7 k" by (rule key_as_dict_frame[OF b8 k(8)])
  also have "\<dots> = map_of s6 k" by (rule key_as_dict_frame[OF b7 k(7)])
  also have "\<dots> = map_of (str_to_list ''volumes'' (str_to_list ''security_opt''
                (str_to_list ''env_file'' s5))) k" by (rule security_opt_frame[OF b6 k(5)])
  also have "\<dots> = map_of s5 k"
    by (simp add: str_to_list_frame[OF k(6)] str_to_list_frame[OF k(5)] str_to_list_frame[OF k(4)])
  also have "\<dots> = map_of s4 k" by (rule split_command_frame[OF b5 k(3)])
  also have "\<dots> = map_of s3 k" by (rule split_command_frame[OF b4 k(2)])
  also have "\<dots> = map_of s2 k" by (rule build_additional_contexts_frame[OF b3 k(1)])
  also have "\<dots> = map_of (build_to_dict service) k" by (rule build_context_frame[OF b2 k(1)])
  also have "\<dots> = map_of service k" by (rule build_to_dict_frame[OF k(1)])
  finally show ?thesis .
qed

lemmas normalize_defs =
  normalize_service_def normalize_other_def build_to_dict_def build_context_def
  build_additional_contexts_def split_command_def str_to_list_def security_opt_def
  key_as_dict_def extends_to_dict_def normalize_depends_on_def dict_of_pairs_def split_eq_def
  setdefault_def keys_def

text \<open>
  Claim C5, as stated, at \<^verbatim>\<open>depends_on: db\<close>: the condition that normalization writes is
  the string \<^verbatim>\<open>service_started\<close>, not \<^verbatim>\<open>running\<close>.
\<close>

theorem depends_on_counterexample:
  "normalize_service (\<lambda>s. Inr [s]) (\<lambda>v. ''?'')
     [(''image'', PStr ''app''), (''depends_on'', PStr ''db'')] []
   = Inr [(''image'', PStr ''app''),
          (''depends_on'', PDict [(''db'', PDict [(''condition'', PStr ''service_started'')])])]"
  by (simp add: normalize_defs)

text \<open>
  Claim C5, amended. When the blocks of \<^verbatim>\<open>normalize_service\<close> that rewrite the other keys
  return, \<^verbatim>\<open>normalize_service\<close> returns their result with \<^verbatim>\<open>depends_on\<close> in the mapping form:
  a string is the one key; a list of strings gives its names, each once, in the order
  in which they come first; a mapping keeps its entries, and a value that is not a
  mapping is an \<^verbatim>\<open>AttributeError\<close>. Every entry without a condition gets the condition
  \<^verbatim>\<open>service_started\<close>, and an explicit condition is kept. The other blocks leave
  \<^verbatim>\<open>depends_on\<close> and every key outside \<open>other_keys\<close> as it was, and return the service
  itself when it has none of their keys. \<^verbatim>\<open>from_value\<close> reads
  \<^verbatim>\<open>service_started\<close> as the member \<open>RUNNING\<close>, whose value is \<^verbatim>\<open>running\<close>.
\<close>

theorem depends_on_canonical:
  assumes "normalize_other shlex_split str_of service sub_dir = Inr service1"
  shows "(map_of service ''depends_on'' = None \<longrightarrow>
      normalize_service shlex_split str_of service sub_dir = Inr service1)
   \<and> (map_of service ''depends_on'' = Some (PStr s) \<longrightarrow>
      normalize_service shlex_split str_of service sub_dir
      = Inr (dict_set service1 ''depends_on'' (PDict [(s, started)])))
   \<and> (map_of service ''depends_on'' = Some (PList (map PStr xs)) \<longrightarrow>
      normalize_service shlex_split str_of service sub_dir
      = Inr (dict_set service1 ''depends_on''
               (PDict (map (\<lambda>x. (x, started)) (rev (remdups (rev xs)))))))
   \<and> (map_of service ''depends_on'' = Some (PDict d) \<longrightarrow>
      normalize_service shlex_split str_of service sub_dir
      = (if list_all (\<lambda>kv. is_dict (snd kv)) d
         then Inr (dict_set service1 ''depends_on''
                     (PDict (map (\<lambda>kv. (fst kv, with_condition (snd kv))) d)))
         else Inl AttributeError))
   \<and> (\<forall>k. k \<notin> other_keys \<longrightarrow> map_of service1 k = map_of service k)
   \<and> ((\<forall>k \<in> other_keys. map_of service k = None) \<longrightarrow> service1 = service)
   \<and> from_value (PStr ''service_started'') = Inr RUNNING
   \<and> cond_value RUNNING = ''running''"
proof -
  have fr: "\<And>k. k \<notin> other_keys \<Longrightarrow> map_of service1 k = map_of service k"
    by (rule normalize_other_frame[OF assms])
  have dk: "''depends_on'' \<notin> other_keys" by (simp add: other_keys_def)
  have d1: "map_of service1 ''depends_on'' = map_of service ''depends_on''" by (rule fr[OF dk])
  have n: "normalize_service shlex_split str_of service sub_dir = normalize_depends_on service1"
    using assms by (simp add: normalize_service_def)
  have a: "map_of service ''depends_on'' = None \<longrightarrow>
      normalize_service shlex_split str_of service sub_dir = Inr service1"
    unfolding n by (simp add: normalize_depends_on_def d1)
  have b: "map_of service ''depends_on'' = Some (PStr s) \<longrightarrow>
      normalize_service shlex_split str_of service sub_dir
      = Inr (dict_set service1 ''depends_on'' (PDict [(s, started)]))"
    unfolding n by (simp add: normalize_depends_on_def d1 setdefault_def keys_def started_def)
  have c: "map_of service ''depends_on'' = Some (PList (map PStr xs)) \<longrightarrow>
      normalize_service shlex_split str_of service sub_dir
      = Inr (dict_set service1 ''depends_on''
               (PDict (map (\<lambda>x. (x, started)) (rev (remdups (rev xs))))))"
    unfolding n
    by (simp add: normalize_depends_on_def d1 dict_comp_keys_strs default_conditions_empty)
  have d: "map_of service ''depends_on'' = Some (PDict d) \<longrightarrow>
      normalize_service shlex_split str_of service sub_dir
      = (if list_all (\<lambda>kv. is_dict (snd kv)) d
         then Inr (dict_set service1 ''depends_on''
                     (PDict (map (\<lambda>kv. (fst kv, with_condition (snd kv))) d)))
         else Inl AttributeError)"
    unfolding n
    by (simp add: normalize_depends_on_def d1 default_conditions_dicts default_conditions_not_dicts)
  have e: "from_value (PStr ''service_started'') = Inr RUNNING"
    by (simp add: from_value_def members_def docker_to_podman_cond_def)
  have f: "cond_value RUNNING = ''running''" by simp
  have g: "(\<forall>k \<in> other_keys. map_of service k = None) \<longrightarrow> service1 = service"
    using normalize_other_absent[of service shlex_split str_of sub_dir] assms by auto
  from a b c d fr e f g show ?thesis by (intro conjI allI impI) auto
qed

text \<open>
  The theorem at a service with a command, an environment list and a list that names
  \<open>db\<close> twice, at a service built from a sub-directory, and at a mapping.
\<close>

theorem depends_on_canonical_witness:
  "normalize_service (\<lambda>s. Inr [''echo'', ''hi'']) (\<lambda>v. ''?'')
     [(''command'', PStr ''echo hi''), (''environment'', PList [PStr ''A=1'', PStr ''B'']),
      (''depends_on'', PList [PStr ''db'', PStr ''mq'', PStr ''db''])] []
   = Inr [(''command'', PList [PStr ''echo'', PStr ''hi'']),
          (''environment'', PDict [(''A'', PStr ''1''), (''B'', PNone)]),
          (''depends_on'', PDict [(''db'', PDict [(''condition'', PStr ''service_started'')]),
                                  (''mq'', PDict [(''condition'', PStr ''service_started'')])])]
   \<and> normalize_service (\<lambda>s. Inr [s]) (\<lambda>v. ''?'')
       [(''build'', PStr ''./app/''), (''depends_on'', PStr ''db'')] ''sub''
     = Inr [(''build'', PDict [(''context'', PStr ''sub/app'')]),
            (''depends_on'', PDict [(''db'', PDict [(''condition'', PStr ''service_started'')])])]
   \<and> normalize_service (\<lambda>s. Inr [s]) (\<lambda>v. ''?'')
       [(''depends_on'', PDict [(''db'', PDict [(''condition'', PStr ''service_healthy'')]),
                                (''mq'', PDict [(''restart'', PBool True)])])] []
     = Inr [(''depends_on'', PDict [(''db'', PDict [(''condition'', PStr ''service_healthy'')]),
                                    (''mq'', PDict [(''restart'', PBool True),
                                                    (''condition'', PStr ''service_started'')])])]"
proof -
  let ?s1 = "[(''command'', PStr ''echo hi''), (''environment'', PList [PStr ''A=1'', PStr ''B'']),
      (''depends_on'', PList [PStr ''db'', PStr ''mq'', PStr ''db''])]"
  let ?s2 = "[(''build'', PStr ''./app/''), (''depends_on'', PStr ''db'')]"
  let ?s3 = "[(''depends_on'', PDict [(''db'', PDict [(''condition'', PStr ''service_healthy'')]),
                                (''mq'', PDict [(''restart'', PBool True)])])]"
  have o1: "normalize_other (\<lambda>s. Inr [''echo'', ''hi'']) (\<lambda>v. ''?'') ?s1 []
            = Inr [(''command'', PList [PStr ''echo'', PStr ''hi'']),
                   (''environment'', PDict [(''A'', PStr ''1''), (''B'', PNone)]),
                   (''depends_on'', PList [PStr ''db'', PStr ''mq'', PStr ''db''])]"
    by (simp add: normalize_defs)
  have o2: "normalize_other (\<lambda>s. Inr [s]) (\<lambda>v. ''?'') ?s2 ''sub''
            = Inr [(''build'', PDict [(''context'', PStr ''sub/app'')]),
                   (''depends_on'', PStr ''db'')]"
    by (simp add: normalize_defs py_get_def sub_dir_context_def path_join_def rstrip_slash_def)
  have o3: "normalize_other (\<lambda>s. Inr [s]) (\<lambda>v. ''?'') ?s3 [] = Inr ?s3"
    by (simp add: normalize_defs)
  from depends_on_canonical[OF o1, of "''x''" "[''db'', ''mq'', ''db'']" "[]"]
    depends_on_canonical[OF o2, of "''db''" "[]" "[]"]
    depends_on_canonical[OF o3, of "''x''" "[]"
       "[(''db'', PDict [(''condition'', PStr ''service_healthy'')]),
         (''mq'', PDict [(''restart'', PBool True)])]"]
  show ?thesis by (simp add: started_def setdefault_def keys_def)
qed

text \<open>
  Claim C6 at a service that extends a service which does not exist. After
  \<^verbatim>\<open>flat_deps(services, with_extends=True)\<close> the service has its \<^verbatim>\<open>_deps\<close>; in
  \<^verbatim>\<open>resolve_extends\<close> the missing base is the empty dict, and \<^verbatim>\<open>del from_service["_deps"]\<close>
  raises \<^verbatim>\<open>KeyError\<close>.
\<close>

theorem extends_missing_base:
  "flat_deps (\<lambda>deps. deps) 1 [(''web'', PDict [(''image'', PStr ''app''),
                                      (''extends'', PDict [(''service'', PStr ''base'')])])] True
     = Some (Inr [(''web'', PDict [(''image'', PStr ''app''),
                                   (''extends'', PDict [(''service'', PStr ''base'')]),
                                   (''_deps'', PDeps [(''base'', RUNNING)])])])
   \<and> resolve_extends load_base
        [(''web'', PDict [(''image'', PStr ''app''),
                          (''extends'', PDict [(''service'', PStr ''base'')]),
                          (''_deps'', PDeps [(''base'', RUNNING)])])]
        [''web''] environ
     = Inl (KeyError ''_deps'')"
  by (simp add: flat_deps_def flat_deps_service_def extends_service_def py_get_def keys_def
      ServiceDependency_def from_value_def members_def docker_to_podman_cond_def put_deps_def
      get_deps_def srv_deps_def resolve_extends_one_def same_file_base_def dict_del_def)

lemma extends_existing_base:
  "resolve_extends load_base
     [(''base'', PDict [(''image'', PStr ''app''), (''_deps'', PDeps [])]),
      (''web'', PDict [(''extends'', PDict [(''service'', PStr ''base'')]),
                       (''ports'', PList [PStr ''80'']),
                       (''_deps'', PDeps [(''base'', RUNNING)])])]
     [''base'', ''web''] environ
   = Inr [(''base'', PDict [(''image'', PStr ''app''), (''_deps'', PDeps [])]),
          (''web'', PDict [(''image'', PStr ''app''),
                           (''extends'', PDict [(''service'', PStr ''base'')]),
                           (''ports'', PList [PStr ''80'']),
                           (''_deps'', PDeps [(''base'', RUNNING)])])]"
  by (simp add: resolve_extends_one_def same_file_base_def py_get_def dict_del_def keys_def
      rec_merge_def clone_def)

lemma sequence_Inr_length: "sequence xs = Inr ys \<Longrightarrow> length ys = length xs"
  by (induction xs arbitrary: ys) (auto split: sum.splits)

lemma sequence_Inr_nth:
  "sequence xs = Inr ys \<Longrightarrow> i < length xs \<Longrightarrow> xs ! i = Inr (ys ! i)"
proof (induction xs arbitrary: ys i)
  case Nil
  then show ?case by simp
next
  case (Cons x xs)
  then show ?case by (cases i) (auto split: sum.splits)
qed

lemma keys_zip:
  assumes "sequence (map deps_len cs) = Inr ks" and "kc \<in> set (zip ks cs)"
  shows "deps_size (snd kc) = fst kc"
proof -
  from assms(2) obtain i where i: "i < length ks" "i < length cs" "kc = (ks ! i, cs ! i)"
    by (auto simp: set_zip)
  from sequence_Inr_nth[OF assms(1), of i] i have "deps_len (cs ! i) = Inr (ks ! i)" by simp
  with i show ?thesis by (simp add: deps_size_def)
qed

lemma sort_by_deps_sorted:
  assumes "sort_by_deps cs = Inr r"
  shows "sorted (map deps_size r)" and "mset r = mset cs"
proof -
  from assms obtain ks where ks: "sequence (map deps_len cs) = Inr ks"
    and r: "r = map snd (sort_key fst (zip ks cs))"
    by (auto simp: sort_by_deps_def split: sum.splits)
  have len: "length ks = length cs" using sequence_Inr_length[OF ks] by simp
  have "map deps_size r = map fst (sort_key fst (zip ks cs))"
    unfolding r using keys_zip[OF ks] by (auto simp: comp_def)
  then show "sorted (map deps_size r)" by simp
  have "mset r = image_mset snd (mset (zip ks cs))" unfolding r by simp
  also have "\<dots> = mset (map snd (zip ks cs))" by simp
  also have "\<dots> = mset cs" using len by simp
  finally show "mset r = mset cs" .
qed

lemma dict_set_other: "k \<noteq> k' \<Longrightarrow> map_of (dict_set d k v) k' = map_of d k'"
  by (induction d) auto

lemma deps_size_pod [simp]: "deps_size (dict_set c ''pod'' v) = deps_size c"
  by (simp add: deps_size_def deps_len_def py_get_def dict_set_other)

lemma containers_sorted_general:
  assumes "order_containers in_pod_bool project_name given_containers = Inr (pods, containers)"
  shows "sorted (map deps_size containers)"
proof (cases "container_by_name [] given_containers")
  case (Inl e)
  with assms show ?thesis by (simp add: order_containers_def)
next
  case (Inr by_name)
  show ?thesis
  proof (cases "sort_by_deps (map (\<lambda>kv. items (snd kv)) by_name)")
    case (Inl e)
    with Inr assms show ?thesis by (simp add: order_containers_def)
  next
    case sc: (Inr sc)
    from assms Inr sc have "map deps_size containers = map deps_size sc"
      by (auto simp: order_containers_def transform_def Let_def comp_def)
    with sort_by_deps_sorted(1)[OF sc] show ?thesis by simp
  qed
qed

lemma iter_small:
  assumes "\<And>xs. mset (iter xs) = mset xs"
  shows "iter [] = []" and "iter [x] = [x]"
proof -
  show "iter [] = []" using assms[of "[]"] by simp
  have "mset (iter [x]) = {#x#}" using assms[of "[x]"] by simp
  then show "iter [x] = [x]" by (simp add: mset_single_iff_right)
qed

lemmas builder_defs =
  flat_deps_def flat_deps_service_def extends_service_def py_get_def keys_def
  ServiceDependency_def from_value_def members_def docker_to_podman_cond_def put_deps_def
  get_deps_def srv_deps_def set_update_def

lemmas order_defs =
  order_containers_def sort_by_deps_def deps_len_def transform_def base_cnt_def service_names_def
  py_get_def

text \<open>
  The sort is stable, and the containers that \<^verbatim>\<open>transform\<close> returns are the containers
  of \<^verbatim>\<open>container_by_name\<close>, each once; when the names differ these are the given
  containers.
\<close>

lemma sort_by_deps_stable:
  assumes "sort_by_deps cs = Inr r"
  shows "filter (\<lambda>c. deps_size c = k) r = filter (\<lambda>c. deps_size c = k) cs"
proof -
  from assms obtain ks where ks: "sequence (map deps_len cs) = Inr ks"
    and r: "r = map snd (sort_key fst (zip ks cs))"
    by (auto simp: sort_by_deps_def split: sum.splits)
  have len: "length ks = length cs" using sequence_Inr_length[OF ks] by simp
  let ?zs = "zip ks cs"
  have e: "\<And>kc. kc \<in> set ?zs \<Longrightarrow> (deps_size (snd kc) = k) = (fst kc = k)"
    using keys_zip[OF ks] by simp
  have "filter (\<lambda>c. deps_size c = k) r
        = map snd (filter (\<lambda>kc. deps_size (snd kc) = k) (sort_key fst ?zs))"
    unfolding r by (simp add: filter_map comp_def)
  also have "filter (\<lambda>kc. deps_size (snd kc) = k) (sort_key fst ?zs)
        = filter (\<lambda>kc. fst kc = k) (sort_key fst ?zs)"
    by (rule filter_cong) (auto simp: e)
  also have "\<dots> = filter (\<lambda>kc. fst kc = k) ?zs" by (rule sort_key_stable)
  also have "\<dots> = filter (\<lambda>kc. deps_size (snd kc) = k) ?zs"
    by (rule filter_cong) (auto simp: e)
  also have "map snd \<dots> = filter (\<lambda>c. deps_size c = k) (map snd ?zs)"
    by (simp add: filter_map comp_def)
  also have "map snd ?zs = cs" using len by simp
  finally show ?thesis .
qed

lemma dict_set_absent: "k \<notin> set (keys d) \<Longrightarrow> dict_set d k v = d @ [(k, v)]"
  by (induction d) (auto simp: keys_def)

lemma container_by_name_distinct:
  "container_by_name acc cs = Inr r \<Longrightarrow> distinct (map (\<lambda>c. map_of c ''name'') cs) \<Longrightarrow>
   \<forall>c \<in> set cs. \<forall>n. map_of c ''name'' = Some (PStr n) \<longrightarrow> n \<notin> set (keys acc) \<Longrightarrow>
   map snd r = map snd acc @ map PDict cs"
proof (induction cs arbitrary: acc)
  case Nil
  then show ?case by simp
next
  case (Cons c cs)
  from Cons.prems(1) obtain n where n: "map_of c ''name'' = Some (PStr n)"
    and r: "container_by_name (dict_set acc n (PDict c)) cs = Inr r"
    by (auto split: option.splits pyval.splits)
  from Cons.prems(3) n have na: "n \<notin> set (keys acc)" by simp
  then have ds: "dict_set acc n (PDict c) = acc @ [(n, PDict c)]" by (rule dict_set_absent)
  have d: "distinct (map (\<lambda>c. map_of c ''name'') cs)" using Cons.prems(2) by simp
  have f: "\<forall>c' \<in> set cs. \<forall>n'. map_of c' ''name'' = Some (PStr n') \<longrightarrow>
             n' \<notin> set (keys (dict_set acc n (PDict c)))"
  proof (intro ballI allI impI)
    fix c' n' assume c': "c' \<in> set cs" and n': "map_of c' ''name'' = Some (PStr n')"
    from Cons.prems(2) have "map_of c ''name'' \<notin> (\<lambda>c. map_of c ''name'') ` set cs" by simp
    with c' have "map_of c' ''name'' \<noteq> map_of c ''name''" by (metis image_eqI)
    with n n' have "n' \<noteq> n" by auto
    moreover from Cons.prems(3) c' n' have "n' \<notin> set (keys acc)" by simp
    ultimately show "n' \<notin> set (keys (dict_set acc n (PDict c)))"
      unfolding ds by (simp add: keys_def)
  qed
  from Cons.IH[OF r d f] show ?case unfolding ds by simp
qed

lemma containers_kept:
  assumes "order_containers in_pod_bool project_name given_containers = Inr (pods, containers)"
  shows "\<exists>by_name. container_by_name [] given_containers = Inr by_name
     \<and> mset containers
         = mset (snd (transform in_pod_bool project_name (map (\<lambda>kv. items (snd kv)) by_name)))
     \<and> (\<forall>k. filter (\<lambda>c. deps_size c = k) containers
            = filter (\<lambda>c. deps_size c = k)
                (snd (transform in_pod_bool project_name (map (\<lambda>kv. items (snd kv)) by_name))))
     \<and> (distinct (map (\<lambda>c. map_of c ''name'') given_containers)
          \<longrightarrow> map (\<lambda>kv. items (snd kv)) by_name = given_containers)"
proof -
  from assms obtain by_name sc where
    b: "container_by_name [] given_containers = Inr by_name"
    and s: "sort_by_deps (map (\<lambda>kv. items (snd kv)) by_name) = Inr sc"
    and c: "containers = snd (transform in_pod_bool project_name sc)"
    by (auto simp: order_containers_def split: sum.splits)
  let ?bn = "map (\<lambda>kv. items (snd kv)) by_name"
  let ?pod = "\<lambda>cnt. dict_set cnt ''pod''
                 (if \<not> in_pod_bool then PNone else PStr (''pod_'' @ project_name))"
  have t: "\<And>xs. snd (transform in_pod_bool project_name xs) = map ?pod xs"
    by (simp add: transform_def Let_def)
  have m: "mset containers = mset (snd (transform in_pod_bool project_name ?bn))"
  proof -
    have "mset (map ?pod sc) = image_mset ?pod (mset sc)" by (rule mset_map)
    also have "mset sc = mset ?bn" by (rule sort_by_deps_sorted(2)[OF s])
    also have "image_mset ?pod (mset ?bn) = mset (map ?pod ?bn)" by (rule mset_map[symmetric])
    finally show ?thesis unfolding c t .
  qed
  have f: "filter (\<lambda>c. deps_size c = k) containers
            = filter (\<lambda>c. deps_size c = k) (snd (transform in_pod_bool project_name ?bn))" for k
  proof -
    have p: "\<And>xs. filter (\<lambda>c. deps_size c = k) (map ?pod xs)
          = map ?pod (filter (\<lambda>c. deps_size c = k) xs)"
      by (simp add: filter_map comp_def)
    have "filter (\<lambda>c. deps_size c = k) (map ?pod sc)
          = map ?pod (filter (\<lambda>c. deps_size c = k) sc)"
      by (rule p)
    also have "filter (\<lambda>c. deps_size c = k) sc = filter (\<lambda>c. deps_size c = k) ?bn"
      by (rule sort_by_deps_stable[OF s])
    also have "map ?pod (filter (\<lambda>c. deps_size c = k) ?bn)
          = filter (\<lambda>c. deps_size c = k) (map ?pod ?bn)"
      by (rule p[symmetric])
    finally show ?thesis unfolding c t .
  qed
  have d: "?bn = given_containers" if "distinct (map (\<lambda>c. map_of c ''name'') given_containers)"
  proof -
    from container_by_name_distinct[OF b that] have "map snd by_name = map PDict given_containers"
      by (simp add: keys_def)
    then have "map items (map snd by_name) = map items (map PDict given_containers)" by simp
    then show ?thesis by (simp add: comp_def)
  qed
  show ?thesis
  proof (intro exI[of _ by_name] conjI allI impI)
    show "container_by_name [] given_containers = Inr by_name" by (rule b)
    show "mset containers = mset (snd (transform in_pod_bool project_name ?bn))" by (rule m)
    show "filter (\<lambda>c. deps_size c = k) containers
            = filter (\<lambda>c. deps_size c = k) (snd (transform in_pod_bool project_name ?bn))" for k
      by (rule f)
    show "?bn = given_containers" if "distinct (map (\<lambda>c. map_of c ''name'') given_containers)"
      using that by (rule d)
  qed
qed

lemmas line_eval =
  db_def api_def front_def builder_defs order_defs numeral_3_eq_3 Let_def
  rec_deps.simps(2) rec_deps_loop.simps(2)

text \<open>
  The line \<open>front \<rightarrow> api \<rightarrow> db\<close>: \<open>front\<close> names one service, as \<open>api\<close> does, and its
  \<^verbatim>\<open>_deps\<close> has two edges after the expansion, so \<open>front\<close> comes after \<open>api\<close> whatever
  the order of the dict.
\<close>

lemma line_order:
  assumes "\<And>xs. mset (iter xs) = mset xs" and "svcs \<in> set line_orders"
  shows "\<exists>s' pods cs.
            flat_deps iter 3 svcs False = Some (Inr s')
          \<and> order_containers b p (map (\<lambda>kv. base_cnt p (fst kv) 1 (items (snd kv))) s')
              = Inr (pods, cs)
          \<and> service_names cs = [Some (PStr ''db''), Some (PStr ''api''), Some (PStr ''front'')]
          \<and> map deps_size cs = [0, 1, 2]"
proof -
  note it = iter_small[OF assms(1)]
  from assms(2) consider "svcs = [db, api, front]" | "svcs = [db, front, api]"
    | "svcs = [api, db, front]" | "svcs = [api, front, db]"
    | "svcs = [front, db, api]" | "svcs = [front, api, db]"
    by (auto simp: line_orders_def)
  then show ?thesis
  proof cases
    case 1
    then show ?thesis using it by (simp add: line_eval deps_size_def)
  next
    case 2
    then show ?thesis using it by (simp add: line_eval deps_size_def)
  next
    case 3
    then show ?thesis using it by (simp add: line_eval deps_size_def)
  next
    case 4
    then show ?thesis using it by (simp add: line_eval deps_size_def)
  next
    case 5
    then show ?thesis using it by (simp add: line_eval deps_size_def)
  next
    case 6
    then show ?thesis using it by (simp add: line_eval deps_size_def)
  qed
qed

text \<open>
  Claim C7: the containers handed on are the containers keyed by name, each once, in
  ascending order of the size of \<^verbatim>\<open>_deps\<close>, and containers of the same size keep the
  order they were given in. For the services \<open>db\<close>, \<open>web\<close> (which depends on \<open>db\<close> with
  \<^verbatim>\<open>service_healthy\<close>) and \<open>cache\<close>, in any order of the dict and any iteration order of
  the sets, the builder returns and the order is \<open>db, cache, web\<close> or \<open>cache, db, web\<close>.
  The size is that of the expanded set: for \<open>front\<close>, which depends on \<open>api\<close>, which
  depends on \<open>db\<close>, the order is \<open>db, api, front\<close> in any order of the dict, with sizes
  0, 1 and 2.
\<close>

theorem creation_order:
  assumes "\<And>xs. mset (iter xs) = mset xs" and "svcs \<in> set three_orders"
    and "line \<in> set line_orders"
  shows "(\<forall>given_containers pods cs.
            order_containers b p given_containers = Inr (pods, cs) \<longrightarrow>
              sorted (map deps_size cs)
            \<and> (\<exists>by_name. container_by_name [] given_containers = Inr by_name
                 \<and> mset cs = mset (snd (transform b p (map (\<lambda>kv. items (snd kv)) by_name)))
                 \<and> (\<forall>k. filter (\<lambda>c. deps_size c = k) cs
                        = filter (\<lambda>c. deps_size c = k)
                            (snd (transform b p (map (\<lambda>kv. items (snd kv)) by_name))))
                 \<and> (distinct (map (\<lambda>c. map_of c ''name'') given_containers)
                      \<longrightarrow> map (\<lambda>kv. items (snd kv)) by_name = given_containers)))
       \<and> (\<exists>s' pods cs.
            flat_deps iter 2 svcs False = Some (Inr s')
          \<and> order_containers b p (map (\<lambda>kv. base_cnt p (fst kv) 1 (items (snd kv))) s')
              = Inr (pods, cs)
          \<and> (service_names cs = [Some (PStr ''db''), Some (PStr ''cache''), Some (PStr ''web'')]
             \<or> service_names cs = [Some (PStr ''cache''), Some (PStr ''db''), Some (PStr ''web'')]))
       \<and> (\<exists>s' pods cs.
            flat_deps iter 3 line False = Some (Inr s')
          \<and> order_containers b p (map (\<lambda>kv. base_cnt p (fst kv) 1 (items (snd kv))) s')
              = Inr (pods, cs)
          \<and> service_names cs = [Some (PStr ''db''), Some (PStr ''api''), Some (PStr ''front'')]
          \<and> map deps_size cs = [0, 1, 2])"
proof (intro conjI)
  show "\<forall>given_containers pods cs.
            order_containers b p given_containers = Inr (pods, cs) \<longrightarrow>
              sorted (map deps_size cs)
            \<and> (\<exists>by_name. container_by_name [] given_containers = Inr by_name
                 \<and> mset cs = mset (snd (transform b p (map (\<lambda>kv. items (snd kv)) by_name)))
                 \<and> (\<forall>k. filter (\<lambda>c. deps_size c = k) cs
                        = filter (\<lambda>c. deps_size c = k)
                            (snd (transform b p (map (\<lambda>kv. items (snd kv)) by_name))))
                 \<and> (distinct (map (\<lambda>c. map_of c ''name'') given_containers)
                      \<longrightarrow> map (\<lambda>kv. items (snd kv)) by_name = given_containers))"
  proof (intro allI impI conjI)
    fix given_containers pods cs
    assume a: "order_containers b p given_containers = Inr (pods, cs)"
    show "sorted (map deps_size cs)" by (rule containers_sorted_general[OF a])
    show "\<exists>by_name. container_by_name [] given_containers = Inr by_name
                 \<and> mset cs = mset (snd (transform b p (map (\<lambda>kv. items (snd kv)) by_name)))
                 \<and> (\<forall>k. filter (\<lambda>c. deps_size c = k) cs
                        = filter (\<lambda>c. deps_size c = k)
                            (snd (transform b p (map (\<lambda>kv. items (snd kv)) by_name))))
                 \<and> (distinct (map (\<lambda>c. map_of c ''name'') given_containers)
                      \<longrightarrow> map (\<lambda>kv. items (snd kv)) by_name = given_containers)"
      by (rule containers_kept[OF a])
  qed
  show "\<exists>s' pods cs.
            flat_deps iter 3 line False = Some (Inr s')
          \<and> order_containers b p (map (\<lambda>kv. base_cnt p (fst kv) 1 (items (snd kv))) s')
              = Inr (pods, cs)
          \<and> service_names cs = [Some (PStr ''db''), Some (PStr ''api''), Some (PStr ''front'')]
          \<and> map deps_size cs = [0, 1, 2]"
    by (rule line_order[OF assms(1,3)])
  note it = iter_small[OF assms(1)]
  from assms(2) consider "svcs = [db, web, cache]" | "svcs = [db, cache, web]"
    | "svcs = [web, db, cache]" | "svcs = [web, cache, db]"
    | "svcs = [cache, db, web]" | "svcs = [cache, web, db]"
    by (auto simp: three_orders_def)
  then show "\<exists>s' pods cs.
            flat_deps iter 2 svcs False = Some (Inr s')
          \<and> order_containers b p (map (\<lambda>kv. base_cnt p (fst kv) 1 (items (snd kv))) s')
              = Inr (pods, cs)
          \<and> (service_names cs = [Some (PStr ''db''), Some (PStr ''cache''), Some (PStr ''web'')]
             \<or> service_names cs = [Some (PStr ''cache''), Some (PStr ''db''), Some (PStr ''web'')])"
  proof cases
    case 1
    then show ?thesis using it
      by (simp add: db_def web_def cache_def builder_defs order_defs numeral_2_eq_2 Let_def)
  next
    case 2
    then show ?thesis using it
      by (simp add: db_def web_def cache_def builder_defs order_defs numeral_2_eq_2 Let_def)
  next
    case 3
    then show ?thesis using it
      by (simp add: db_def web_def cache_def builder_defs order_defs numeral_2_eq_2 Let_def)
  next
    case 4
    then show ?thesis using it
      by (simp add: db_def web_def cache_def builder_defs order_defs numeral_2_eq_2 Let_def)
  next
    case 5
    then show ?thesis using it
      by (simp add: db_def web_def cache_def builder_defs order_defs numeral_2_eq_2 Let_def)
  next
    case 6
    then show ?thesis using it
      by (simp add: db_def web_def cache_def builder_defs order_defs numeral_2_eq_2 Let_def)
  qed
qed

text \<open>
  The theorem at the dict orders \<open>web, cache, db\<close> and \<open>front, api, db\<close>, with the sets
  iterated in the order of their lists.
\<close>

theorem creation_order_witness:
  "(\<exists>s' pods cs.
      flat_deps (\<lambda>xs. xs) 2 [web, cache, db] False = Some (Inr s')
    \<and> order_containers True ''proj'' (map (\<lambda>kv. base_cnt ''proj'' (fst kv) 1 (items (snd kv))) s')
        = Inr (pods, cs)
    \<and> service_names cs = [Some (PStr ''cache''), Some (PStr ''db''), Some (PStr ''web'')])
   \<and> (\<exists>s' pods cs.
      flat_deps (\<lambda>xs. xs) 3 [front, api, db] False = Some (Inr s')
    \<and> order_containers True ''proj'' (map (\<lambda>kv. base_cnt ''proj'' (fst kv) 1 (items (snd kv))) s')
        = Inr (pods, cs)
    \<and> service_names cs = [Some (PStr ''db''), Some (PStr ''api''), Some (PStr ''front'')]
    \<and> map deps_size cs = [0, 1, 2])"
proof -
  have o: "[web, cache, db] \<in> set three_orders" by (simp add: three_orders_def)
  have l: "[front, api, db] \<in> set line_orders" by (simp add: line_orders_def)
  have ne: "service_names cs \<noteq> [Some (PStr ''db''), Some (PStr ''cache''), Some (PStr ''web'')]"
    if "flat_deps (\<lambda>xs. xs) 2 [web, cache, db] False = Some (Inr s')"
      "order_containers True ''proj'' (map (\<lambda>kv. base_cnt ''proj'' (fst kv) 1 (items (snd kv))) s')
        = Inr (pods, cs)" for s' pods cs
    using that
    by (auto simp add: db_def web_def cache_def builder_defs order_defs numeral_2_eq_2 Let_def)
  note t = creation_order[of "\<lambda>xs. xs", OF _ o l, of True "''proj''"]
  have t2: "\<exists>s' pods cs.
      flat_deps (\<lambda>xs. xs) 2 [web, cache, db] False = Some (Inr s')
    \<and> order_containers True ''proj'' (map (\<lambda>kv. base_cnt ''proj'' (fst kv) 1 (items (snd kv))) s')
        = Inr (pods, cs)
    \<and> (service_names cs = [Some (PStr ''db''), Some (PStr ''cache''), Some (PStr ''web'')]
       \<or> service_names cs = [Some (PStr ''cache''), Some (PStr ''db''), Some (PStr ''web'')])"
    using t by simp
  have t3: "\<exists>s' pods cs.
      flat_deps (\<lambda>xs. xs) 3 [front, api, db] False = Some (Inr s')
    \<and> order_containers True ''proj'' (map (\<lambda>kv. base_cnt ''proj'' (fst kv) 1 (items (snd kv))) s')
        = Inr (pods, cs)
    \<and> service_names cs = [Some (PStr ''db''), Some (PStr ''api''), Some (PStr ''front'')]
    \<and> map deps_size cs = [0, 1, 2]"
    using t by simp
  from t2 ne have "\<exists>s' pods cs.
      flat_deps (\<lambda>xs. xs) 2 [web, cache, db] False = Some (Inr s')
    \<and> order_containers True ''proj'' (map (\<lambda>kv. base_cnt ''proj'' (fst kv) 1 (items (snd kv))) s')
        = Inr (pods, cs)
    \<and> service_names cs = [Some (PStr ''cache''), Some (PStr ''db''), Some (PStr ''web'')]"
    by blast
  with t3 show ?thesis by (rule conjI[rotated])
qed

section \<open>Properties of the dependency closure\<close>

subsection \<open>States with seeded edge sets\<close>

text \<open>
  Assignments to \<^verbatim>\<open>services[x]["_deps"]\<close> keep the keys, the shape of the state and
  the sets of the other services.
\<close>

lemma map_of_dict_set: "map_of (dict_set d k v) k' = (if k' = k then Some v else map_of d k')"
  by (induction d) auto

lemma keys_dict_set_present: "k \<in> set (keys d) \<Longrightarrow> keys (dict_set d k v) = keys d"
  by (induction d) (force simp: keys_def)+

lemma srv_deps_Inr:
  "srv_deps v = Inr es \<longleftrightarrow> (\<exists>d. v = PDict d \<and> map_of d ''_deps'' = Some (PDeps es))"
  by (auto simp: srv_deps_def split: pyval.splits option.splits)

lemma well_seeded_lookup:
  assumes "well_seeded st" "y \<in> set (keys st)"
  shows "\<exists>d es. map_of st y = Some (PDict d) \<and> map_of d ''_deps'' = Some (PDeps es)"
proof -
  from assms(2) obtain v where v: "(y, v) \<in> set st" by (auto simp: keys_def)
  with assms(1) have m: "map_of st y = Some v" by (simp add: well_seeded_def keys_def)
  from v assms(1) have "\<exists>es. srv_deps v = Inr es"
    by (auto simp: well_seeded_def list_all_iff)
  then show ?thesis using m by (auto simp: srv_deps_Inr)
qed

lemma get_deps_present:
  assumes "well_seeded st" "y \<in> set (keys st)"
  shows "\<exists>es. get_deps st y = Inr es"
  using well_seeded_lookup[OF assms] by (auto simp: get_deps_def srv_deps_def)

lemma get_deps_absent: "y \<notin> set (keys st) \<Longrightarrow> get_deps st y = Inl (KeyError y)"
  by (simp add: get_deps_def keys_def map_of_eq_None_iff[THEN iffD2])

lemma dnames_absent [simp]: "y \<notin> set (keys st) \<Longrightarrow> dnames st y = {}"
  by (simp add: dnames_def get_deps_absent)

lemma get_deps_Inr_key: "get_deps st y = Inr es \<Longrightarrow> y \<in> set (keys st)"
  by (auto simp: get_deps_def keys_def split: option.splits dest: map_of_SomeD intro: rev_image_eqI)

lemma list_all_dict_set:
  "list_all P d \<Longrightarrow> P (k, v) \<Longrightarrow> list_all P (dict_set d k v)"
  by (induction d) auto

lemma put_deps_props:
  assumes "well_seeded st" "x \<in> set (keys st)"
  shows "well_seeded (put_deps st x es)"
    and "keys (put_deps st x es) = keys st"
    and "get_deps (put_deps st x es) y = (if y = x then Inr es else get_deps st y)"
proof -
  from well_seeded_lookup[OF assms] obtain d es0 where
    d: "map_of st x = Some (PDict d)" "map_of d ''_deps'' = Some (PDeps es0)" by auto
  have p: "put_deps st x es = dict_set st x (PDict (dict_set d ''_deps'' (PDeps es)))"
    using d by (simp add: put_deps_def)
  show k: "keys (put_deps st x es) = keys st"
    unfolding p using assms(2) by (rule keys_dict_set_present)
  show "well_seeded (put_deps st x es)"
    unfolding well_seeded_def k[unfolded p] p using assms(1)
    by (auto simp: well_seeded_def srv_deps_Inr map_of_dict_set intro!: list_all_dict_set)
  show "get_deps (put_deps st x es) y = (if y = x then Inr es else get_deps st y)"
    unfolding p by (simp add: get_deps_def srv_deps_def map_of_dict_set)
qed

lemma grows_refl: "well_seeded st \<Longrightarrow> grows s st st"
  by (simp add: grows_def)

lemma grows_trans:
  assumes "grows s a b" and "grows s b c"
  shows "grows s a c"
proof -
  have 1: "well_seeded c" "keys c = keys a" using assms by (simp_all add: grows_def)
  have 2: "dnames a y \<subseteq> dnames c y" for y
    using assms unfolding grows_def by (meson subset_trans)
  have 3: "s \<in> dnames c y \<Longrightarrow> s \<in> dnames a y" for y
    using assms unfolding grows_def by blast
  show ?thesis unfolding grows_def using 1 2 3 by blast
qed

lemma grows_put:
  assumes "well_seeded st" "get_deps st x = Inr deps" "s \<notin> fst ` set nd"
  shows "grows s st (put_deps st x (set_update deps nd))"
    and "dnames (put_deps st x (set_update deps nd)) x = dnames st x \<union> fst ` set nd"
proof -
  have x: "x \<in> set (keys st)" using assms(2) by (rule get_deps_Inr_key)
  note pp = put_deps_props[OF assms(1) x]
  have su: "set (set_update deps nd) = set deps \<union> set nd" by (auto simp: set_update_def)
  show d: "dnames (put_deps st x (set_update deps nd)) x = dnames st x \<union> fst ` set nd"
    using assms(2) by (auto simp: dnames_def pp(3) su)
  have o: "\<And>y. y \<noteq> x \<Longrightarrow> dnames (put_deps st x (set_update deps nd)) y = dnames st y"
    by (simp add: dnames_def pp(3))
  show "grows s st (put_deps st x (set_update deps nd))"
    unfolding grows_def using pp(1,2) d o assms(3)
    by (metis Un_iff inf_sup_ord(3) subset_refl)
qed

lemma rec_deps_Suc:
  "rec_deps iter (Suc n) st x sp =
     (case get_deps st x of
        Inl e \<Rightarrow> Some (Inl e)
      | Inr deps \<Rightarrow>
          (case rec_deps_loop iter n st x (start_of sp x) (iter deps) of
             None \<Rightarrow> None
           | Some (Inl e) \<Rightarrow> Some (Inl e)
           | Some (Inr st') \<Rightarrow>
               (case get_deps st' x of
                  Inl e \<Rightarrow> Some (Inl e)
                | Inr deps' \<Rightarrow> Some (Inr (st', deps')))))"
  unfolding start_of_def by (simp add: Let_def rec_deps.simps(2))

text \<open>
  One call of \<^verbatim>\<open>rec_deps\<close> and one turn of its loop, in a well-seeded state: the
  three \<^verbatim>\<open>continue\<close> tests read as membership in \<open>dnames\<close> and in the keys.
\<close>

lemma loop_Cons:
  assumes "well_seeded st"
  shows "rec_deps_loop iter n st x s (d # rest) =
     (if fst d = x \<or> fst d \<notin> set (keys st) \<or> s \<in> dnames st (fst d)
      then rec_deps_loop iter n st x s rest
      else (case rec_deps iter n st (fst d) (Some s) of
              None \<Rightarrow> None
            | Some (Inl e) \<Rightarrow> Some (Inl e)
            | Some (Inr (st', nd)) \<Rightarrow>
                (case get_deps st' x of
                   Inl e \<Rightarrow> Some (Inl e)
                 | Inr deps \<Rightarrow>
                     rec_deps_loop iter n (put_deps st' x (set_update deps nd)) x s rest)))"
proof (cases "fst d \<in> set (keys st)")
  case False
  then have "map_of st (fst d) = None" by (simp add: keys_def map_of_eq_None_iff)
  then show ?thesis using False by (simp add: rec_deps_loop.simps(2))
next
  case True
  from well_seeded_lookup[OF assms True] obtain dd es where
    l: "map_of st (fst d) = Some (PDict dd)" "map_of dd ''_deps'' = Some (PDeps es)" by auto
  then have t: "truthy (PDict dd)" by auto
  have sd: "srv_deps (PDict dd) = Inr es" using l by (simp add: srv_deps_def)
  have dn: "dnames st (fst d) = fst ` set es" using l by (simp add: dnames_def get_deps_def srv_deps_def)
  show ?thesis using True l t sd dn by (simp add: rec_deps_loop.simps(2) del: truthy.simps)
qed

declare rec_deps.simps(2) [simp del] rec_deps_loop.simps(2) [simp del]

subsection \<open>The edge sets only grow\<close>

text \<open>
  A call of \<^verbatim>\<open>rec_deps\<close> that returns leaves a well-seeded state with the same keys in
  which every set has grown, none by an edge to the start point, and returns the set
  of its service.
\<close>

lemma loop_grows_step:
  assumes rd: "\<And>st x sp s st' r. well_seeded st \<Longrightarrow> s \<noteq> [] \<Longrightarrow> start_of sp x = s \<Longrightarrow>
              rec_deps iter n st x sp = Some (Inr (st', r)) \<Longrightarrow> grows s st st' \<and> get_deps st' x = Inr r"
    and "well_seeded st" "s \<noteq> []" "rec_deps_loop iter n st x s ds = Some (Inr st')"
  shows "grows s st st'"
  using assms(2,4)
proof (induction ds arbitrary: st)
  case Nil
  then show ?case by (simp add: grows_refl)
next
  case (Cons d rest)
  show ?case
  proof (cases "fst d = x \<or> fst d \<notin> set (keys st) \<or> s \<in> dnames st (fst d)")
    case True
    with Cons.prems have "rec_deps_loop iter n st x s rest = Some (Inr st')"
      by (simp add: loop_Cons[OF Cons.prems(1)])
    then show ?thesis using Cons.IH Cons.prems(1) by blast
  next
    case False
    with Cons.prems obtain st1 nd deps where
      c: "rec_deps iter n st (fst d) (Some s) = Some (Inr (st1, nd))"
      and g: "get_deps st1 x = Inr deps"
      and l: "rec_deps_loop iter n (put_deps st1 x (set_update deps nd)) x s rest = Some (Inr st')"
      by (auto simp: loop_Cons[OF Cons.prems(1)] split: option.splits sum.splits)
    have so: "start_of (Some s) (fst d) = s" using assms(3) by (simp add: start_of_def)
    from rd[OF Cons.prems(1) assms(3) so c] have g1: "grows s st st1" and r1: "get_deps st1 (fst d) = Inr nd"
      by auto
    have w1: "well_seeded st1" using g1 by (simp add: grows_def)
    have "s \<notin> dnames st1 (fst d)" using g1 False by (auto simp: grows_def)
    then have sn: "s \<notin> fst ` set nd" using r1 by (simp add: dnames_def)
    let ?st2 = "put_deps st1 x (set_update deps nd)"
    have g2: "grows s st1 ?st2" using grows_put(1)[OF w1 g sn] .
    then have w2: "well_seeded ?st2" by (simp add: grows_def)
    from Cons.IH[OF w2 l] have "grows s ?st2 st'" .
    with g1 g2 show ?thesis by (blast intro: grows_trans)
  qed
qed

lemma rec_deps_grows:
  "well_seeded st \<Longrightarrow> s \<noteq> [] \<Longrightarrow> start_of sp x = s \<Longrightarrow>
   rec_deps iter n st x sp = Some (Inr (st', r)) \<Longrightarrow> grows s st st' \<and> get_deps st' x = Inr r"
proof (induction n arbitrary: st x sp s st' r)
  case 0
  then show ?case by simp
next
  case (Suc n)
  from Suc.prems(4) obtain deps where
    l: "rec_deps_loop iter n st x s (iter deps) = Some (Inr st')" and g: "get_deps st' x = Inr r"
    using Suc.prems(3)
    by (auto simp: rec_deps_Suc split: sum.splits option.splits)
  have "grows s st st'"
    by (rule loop_grows_step[OF Suc.IH Suc.prems(1,2) l]) 
  with g show ?case by simp
qed

lemma loop_grows:
  "well_seeded st \<Longrightarrow> s \<noteq> [] \<Longrightarrow> rec_deps_loop iter n st x s ds = Some (Inr st') \<Longrightarrow> grows s st st'"
  by (rule loop_grows_step[OF rec_deps_grows])

subsection \<open>New edges come from followed paths\<close>








subsection \<open>A cycle away from the start point uses up the recursion\<close>






subsection \<open>No service gains an edge to itself\<close>





subsection \<open>The first loop of \<^verbatim>\<open>flat_deps\<close>\<close>



















lemma iter_one: "set (iter xs) = set xs \<Longrightarrow> xs = [x] \<Longrightarrow> set (iter xs) = {x}"
  by simp

subsection \<open>The closure\<close>






end
